theory Spec2Isabelle
  imports Main "HOL-Library.Code_Target_Nat"
begin

section \<open>Bytes, errors and the formatting verbs the encoder uses\<close>

text \<open>
  A Go \<open>string\<close> and a Go \<open>[]byte\<close> are both sequences of bytes; they are modelled as
  \<open>string\<close>, that is \<open>char list\<close>, one \<open>char\<close> per byte. Go's \<open>int\<close> is modelled as
  \<open>int\<close>: the only arithmetic the encoder does on it is \<open>s.nextName++\<close>, which counts the
  distinct names of one pass from 0 and cannot reach the end of a machine word.
\<close>

datatype error = EOF | ErrShortWrite | SinkError nat

text \<open>
  What a call of an \<open>encode\<close> method or of \<open>EncodeObject\<close> does: it returns Go's \<open>error\<close>
  (\<open>None\<close> is \<open>nil\<close>), or it panics with a nil dereference.
\<close>

datatype outcome = Returns "error option" | Panics

definition newline :: string where
  "newline = [CHR 0x0A]"

definition hexdigit :: "nat \<Rightarrow> char" where
  "hexdigit d = ''0123456789ABCDEF'' ! d"

definition decdigit :: "nat \<Rightarrow> char" where
  "decdigit d = ''0123456789'' ! d"

text \<open>The digits of a natural number, most significant first, without leading zeros.\<close>

function hex_nat :: "nat \<Rightarrow> string" where
  "hex_nat n = (if n < 16 then [hexdigit n] else hex_nat (n div 16) @ [hexdigit (n mod 16)])"
  by pat_completeness auto
termination
  by (relation "measure id") auto

function dec_nat :: "nat \<Rightarrow> string" where
  "dec_nat n = (if n < 10 then [decdigit n] else dec_nat (n div 10) @ [decdigit (n mod 10)])"
  by pat_completeness auto
termination
  by (relation "measure id") auto

declare hex_nat.simps [simp del] dec_nat.simps [simp del]

text \<open>\<open>fmt\<close>'s \<open>%X\<close> on an integer: upper-case hexadecimal, no padding, a sign if negative.\<close>

definition fmt_X :: "int \<Rightarrow> string" where
  "fmt_X i = (if i < 0 then ''-'' @ hex_nat (nat (- i)) else hex_nat (nat i))"

text \<open>\<open>fmt\<close>'s \<open>%v\<close> on an \<open>int\<close>: base 10, a leading \<open>-\<close> if negative.\<close>

definition fmt_d :: "int \<Rightarrow> string" where
  "fmt_d i = (if i < 0 then ''-'' @ dec_nat (nat (- i)) else dec_nat (nat i))"

text \<open>\<open>fmt\<close>'s \<open>%X\<close> on a byte slice: two upper-case hexadecimal digits for each byte.\<close>

definition hex_byte :: "char \<Rightarrow> string" where
  "hex_byte c = [hexdigit (of_char c div 16), hexdigit (of_char c mod 16)]"

definition fmt_X_bytes :: "string \<Rightarrow> string" where
  "fmt_X_bytes bs = concat (map hex_byte bs)"

definition fmt_bool :: "bool \<Rightarrow> string" where
  "fmt_bool b = (if b then ''true'' else ''false'')"

subsection \<open>UTF-8, as \<open>range\<close> over a string and \<open>WriteRune\<close> use it\<close>

definition RuneError :: int where
  "RuneError = 65533"

definition continuation :: "char \<Rightarrow> bool" where
  "continuation c = (128 \<le> (of_char c :: nat) \<and> (of_char c :: nat) \<le> 191)"

definition cont_bits :: "char \<Rightarrow> int" where
  "cont_bits c = int (of_char c mod 64)"

text \<open>
  One step of \<open>for _, r := range str\<close>: the rune at the head of a non-empty string and the
  number of bytes it takes. A byte that does not start a well-formed encoding yields
  \<open>RuneError\<close> and takes one byte. The bounds on the second byte are those of the
  \<open>utf8\<close> package: no overlong form, no surrogate, nothing above \<open>U+10FFFF\<close>.
\<close>

fun decodeRune :: "string \<Rightarrow> int \<times> nat" where
  "decodeRune [] = (RuneError, 0)"
| "decodeRune (c0 # rest) =
     (let b0 = (of_char c0 :: nat) in
      if b0 < 128 then (int b0, 1)
      else if b0 < 194 \<or> 244 < b0 then (RuneError, 1)
      else if b0 < 224 then
        (case rest of
           c1 # _ \<Rightarrow> if continuation c1 then (int (b0 mod 32) * 64 + cont_bits c1, 2)
                     else (RuneError, 1)
         | _ \<Rightarrow> (RuneError, 1))
      else if b0 < 240 then
        (case rest of
           c1 # c2 # _ \<Rightarrow>
             if (if b0 = 224 then 160 else 128) \<le> (of_char c1 :: nat)
                \<and> (of_char c1 :: nat) \<le> (if b0 = 237 then 159 else 191)
                \<and> continuation c2
             then (int (b0 mod 16) * 4096 + cont_bits c1 * 64 + cont_bits c2, 3)
             else (RuneError, 1)
         | _ \<Rightarrow> (RuneError, 1))
      else
        (case rest of
           c1 # c2 # c3 # _ \<Rightarrow>
             if (if b0 = 240 then 144 else 128) \<le> (of_char c1 :: nat)
                \<and> (of_char c1 :: nat) \<le> (if b0 = 244 then 143 else 191)
                \<and> continuation c2 \<and> continuation c3
             then (int (b0 mod 8) * 262144 + cont_bits c1 * 4096 + cont_bits c2 * 64
                   + cont_bits c3, 4)
             else (RuneError, 1)
         | _ \<Rightarrow> (RuneError, 1)))"

lemma decodeRune_size: "1 \<le> snd (decodeRune (c # cs))"
  by (auto simp: Let_def split: list.splits)

text \<open>The runes that \<open>range\<close> yields over a string, in order.\<close>

function runes :: "string \<Rightarrow> int list" where
  "runes [] = []"
| "runes (c # cs) = fst (decodeRune (c # cs)) # runes (drop (snd (decodeRune (c # cs))) (c # cs))"
  by pat_completeness auto
termination
proof (relation "measure length")
  fix c cs
  have "1 \<le> snd (decodeRune (c # cs))" by (rule decodeRune_size)
  then show "(drop (snd (decodeRune (c # cs))) (c # cs), c # cs) \<in> measure length"
    by simp
qed simp

declare runes.simps(2) [simp del]

text \<open>\<open>utf8.EncodeRune\<close>: the bytes of a rune; a rune that is no code point is written as \<open>RuneError\<close>.\<close>

definition encodeRune3 :: "nat \<Rightarrow> string" where
  "encodeRune3 r = [char_of (224 + r div 4096), char_of (128 + r div 64 mod 64), char_of (128 + r mod 64)]"

definition encodeRune :: "int \<Rightarrow> string" where
  "encodeRune r =
     (if 0 \<le> r \<and> r \<le> 127 then [char_of (nat r)]
      else if 0 \<le> r \<and> r \<le> 2047 then [char_of (192 + nat r div 64), char_of (128 + nat r mod 64)]
      else if r < 0 \<or> 1114111 < r \<or> (55296 \<le> r \<and> r \<le> 57343) then encodeRune3 (nat RuneError)
      else if r \<le> 65535 then encodeRune3 (nat r)
      else [char_of (240 + nat r div 262144), char_of (128 + nat r div 4096 mod 64),
            char_of (128 + nat r div 64 mod 64), char_of (128 + nat r mod 64)])"

section \<open>Writers\<close>

subsection \<open>The output the caller supplies\<close>

text \<open>
  The \<open>io.Writer\<close> handed to \<open>EncodeObject\<close> or \<open>Encode\<close>. It keeps what it has been sent
  (\<open>out\<close>) and whether a write on it has failed (\<open>failed\<close>). Its behaviour is \<open>accept\<close>:
  given what it holds and the bytes of a call, \<open>None\<close> takes them all, and \<open>Some (n, e)\<close>
  takes the first \<open>n\<close> of them and fails with \<open>e\<close>. So a write that returns no error has
  written everything, which is the contract of \<open>io.Writer\<close>.
\<close>

record sink =
  out :: string
  failed :: bool
  accept :: "string \<Rightarrow> string \<Rightarrow> (nat \<times> error) option"

definition sink_Write :: "sink \<Rightarrow> string \<Rightarrow> sink \<times> nat \<times> error option" where
  "sink_Write k p =
     (case accept k (out k) p of
        None \<Rightarrow> (k\<lparr>out := out k @ p\<rparr>, length p, None)
      | Some (n, e) \<Rightarrow> (k\<lparr>out := out k @ take n p, failed := True\<rparr>, min n (length p), Some e))"

text \<open>A sink that takes everything, and one that takes \<open>room\<close> bytes in all and then fails.\<close>

definition good_sink :: sink where
  "good_sink = \<lparr>out = [], failed = False, accept = (\<lambda>held p. None)\<rparr>"

definition full_after :: "nat \<Rightarrow> error \<Rightarrow> sink" where
  "full_after room e =
     \<lparr>out = [], failed = False,
      accept = (\<lambda>held p. if length held + length p \<le> room then None
                          else Some (room - length held, e))\<rparr>"

subsection \<open>\<open>bufio.Writer\<close>\<close>

text \<open>
  The buffered writer of Go's standard library, with its default size. \<open>buf\<close> holds the
  bytes not yet passed on (\<open>b.buf[0:b.n]\<close>) and \<open>werr\<close> is its field \<open>err\<close>. The writer it
  wraps is the second component of the pair its functions work on, and \<open>uw\<close> is the
  \<open>Write\<close> method of that writer.
\<close>

record bufio_Writer =
  buf :: string
  werr :: "error option"

definition defaultBufSize :: nat where
  "defaultBufSize = 4096"

definition bufio_NewWriter :: bufio_Writer where
  "bufio_NewWriter = \<lparr>buf = [], werr = None\<rparr>"

definition Available :: "bufio_Writer \<Rightarrow> nat" where
  "Available b = defaultBufSize - length (buf b)"

definition bufio_Flush ::
  "('u \<Rightarrow> string \<Rightarrow> 'u \<times> nat \<times> error option) \<Rightarrow> bufio_Writer \<times> 'u \<Rightarrow> (bufio_Writer \<times> 'u) \<times> error option"
where
  "bufio_Flush uw bu =
     (let b = fst bu; u = snd bu in
      if werr b \<noteq> None then (bu, werr b)
      else if buf b = [] then (bu, None)
      else
        let (u1, n, e) = uw u (buf b);
            e1 = (if n < length (buf b) \<and> e = None then Some ErrShortWrite else e)
        in if e1 \<noteq> None then ((b\<lparr>buf := drop n (buf b), werr := e1\<rparr>, u1), e1)
           else ((b\<lparr>buf := []\<rparr>, u1), None))"

text \<open>
  \<open>Write\<close>. Its loop runs while the bytes left do not fit and no error is recorded: with an
  empty buffer it hands them to the wrapped writer directly, otherwise it fills the
  buffer and flushes it. A wrapped writer that returns no error has taken all it was
  given, so the direct write ends the loop; \<open>bufio_Write_direct\<close> is that last round.
\<close>

definition bufio_Write_direct ::
  "('u \<Rightarrow> string \<Rightarrow> 'u \<times> nat \<times> error option) \<Rightarrow> bufio_Writer \<times> 'u \<Rightarrow> string \<Rightarrow> nat
     \<Rightarrow> (bufio_Writer \<times> 'u) \<times> nat \<times> error option"
where
  "bufio_Write_direct uw bu p nn =
     (let (u1, n, e) = uw (snd bu) p in (((fst bu)\<lparr>werr := e\<rparr>, u1), nn + n, e))"

definition bufio_Write ::
  "('u \<Rightarrow> string \<Rightarrow> 'u \<times> nat \<times> error option) \<Rightarrow> bufio_Writer \<times> 'u \<Rightarrow> string
     \<Rightarrow> (bufio_Writer \<times> 'u) \<times> nat \<times> error option"
where
  "bufio_Write uw bu p =
     (let b = fst bu; u = snd bu in
      if werr b \<noteq> None then (bu, 0, werr b)
      else if length p \<le> Available b then ((b\<lparr>buf := buf b @ p\<rparr>, u), length p, None)
      else if buf b = [] then bufio_Write_direct uw bu p 0
      else
        let n = Available b;
            (bu1, fe) = bufio_Flush uw (b\<lparr>buf := buf b @ take n p\<rparr>, u);
            b1 = fst bu1; p1 = drop n p
        in if werr b1 \<noteq> None then (bu1, n, werr b1)
           else if length p1 \<le> Available b1
             then ((b1\<lparr>buf := buf b1 @ p1\<rparr>, snd bu1), n + length p1, None)
           else bufio_Write_direct uw bu1 p1 n)"

text \<open>
  \<open>WriteString\<close> is \<open>Write\<close> on the bytes of the string: the two differ only in how a string
  longer than the buffer is cut into calls of the wrapped writer.
\<close>

definition bufio_WriteString ::
  "('u \<Rightarrow> string \<Rightarrow> 'u \<times> nat \<times> error option) \<Rightarrow> bufio_Writer \<times> 'u \<Rightarrow> string
     \<Rightarrow> (bufio_Writer \<times> 'u) \<times> nat \<times> error option"
where
  "bufio_WriteString uw bu str = bufio_Write uw bu str"

definition bufio_WriteByte ::
  "('u \<Rightarrow> string \<Rightarrow> 'u \<times> nat \<times> error option) \<Rightarrow> bufio_Writer \<times> 'u \<Rightarrow> char
     \<Rightarrow> (bufio_Writer \<times> 'u) \<times> error option"
where
  "bufio_WriteByte uw bu c =
     (let b = fst bu in
      if werr b \<noteq> None then (bu, werr b)
      else if Available b \<le> 0 then
        (let (bu1, fe) = bufio_Flush uw bu in
         if fe \<noteq> None then (bu1, werr (fst bu1))
         else (((fst bu1)\<lparr>buf := buf (fst bu1) @ [c]\<rparr>, snd bu1), None))
      else ((b\<lparr>buf := buf b @ [c]\<rparr>, snd bu), None))"

definition bufio_WriteRune ::
  "('u \<Rightarrow> string \<Rightarrow> 'u \<times> nat \<times> error option) \<Rightarrow> bufio_Writer \<times> 'u \<Rightarrow> int
     \<Rightarrow> (bufio_Writer \<times> 'u) \<times> nat \<times> error option"
where
  "bufio_WriteRune uw bu r =
     (if 0 \<le> r \<and> r < 128 then
        (let (bu1, e) = bufio_WriteByte uw bu (char_of (nat r)) in
         if e \<noteq> None then (bu1, 0, e) else (bu1, 1, None))
      else if werr (fst bu) \<noteq> None then (bu, 0, werr (fst bu))
      else
        let (bu1, fe) = (if Available (fst bu) < 4 then bufio_Flush uw bu else (bu, None)) in
        if werr (fst bu1) \<noteq> None then (bu1, 0, werr (fst bu1))
        else (((fst bu1)\<lparr>buf := buf (fst bu1) @ encodeRune r\<rparr>, snd bu1),
              length (encodeRune r), None))"

subsection \<open>The encode state\<close>

text \<open>
  \<open>encodeState\<close>: its buffered writer \<open>w\<close>, the first error \<open>err\<close>, and the table of
  object names. \<open>names\<close> is \<open>None\<close> while the Go map is \<open>nil\<close>.
\<close>

record encodeState =
  w :: bufio_Writer
  err :: "error option"
  nextName :: int
  names :: "(string \<rightharpoonup> int) option"

text \<open>
  A writer is the caller's output, or an \<open>encodeState\<close> on top of the writer that its
  \<open>bufio.Writer\<close> wraps: \<open>Array.encode\<close>, \<open>Dict.encode\<close> and \<open>Stream.encode\<close> pass their own
  state \<open>s\<close> to \<open>EncodeObject\<close> as the \<open>io.Writer\<close>. A \<open>ctx\<close> is a state \<open>s\<close> together with
  the writer under it.
\<close>

datatype writer = Sink sink | Enc encodeState writer

type_synonym ctx = "encodeState \<times> writer"

fun depth :: "writer \<Rightarrow> nat" where
  "depth (Sink k) = 0"
| "depth (Enc s u) = Suc (depth u)"

definition Write_on ::
  "('u \<Rightarrow> string \<Rightarrow> 'u \<times> nat \<times> error option) \<Rightarrow> encodeState \<times> 'u \<Rightarrow> string
     \<Rightarrow> (encodeState \<times> 'u) \<times> nat \<times> error option"
where
  "Write_on uw su p =
     (let s = fst su in
      if err s \<noteq> None then (su, 0, err s)
      else
        let (bu1, n, e) = bufio_Write uw (w s, snd su) p
        in ((s\<lparr>w := fst bu1, err := e\<rparr>, snd bu1), n, e))"

text \<open>
  The \<open>Write\<close> method of a writer. A state calls the writer under it more than once in
  one \<open>Write\<close>, each time in the state the call before left it in, so the recursion is on
  the number of states stacked on the sink: \<open>Write_d d\<close> is \<open>Write\<close> for a writer of at
  most \<open>d\<close> states (the last case of the first equation is never reached from \<open>wWrite\<close>).
\<close>

primrec Write_d :: "nat \<Rightarrow> writer \<Rightarrow> string \<Rightarrow> writer \<times> nat \<times> error option" where
  "Write_d 0 wr p =
     (case wr of
        Sink k \<Rightarrow> (let (k1, n, e) = sink_Write k p in (Sink k1, n, e))
      | Enc s u \<Rightarrow> (wr, 0, Some ErrShortWrite))"
| "Write_d (Suc d) wr p =
     (case wr of
        Sink k \<Rightarrow> (let (k1, n, e) = sink_Write k p in (Sink k1, n, e))
      | Enc s u \<Rightarrow> (let (su1, n, e) = Write_on (Write_d d) (s, u) p in (Enc (fst su1) (snd su1), n, e)))"

definition wWrite :: "writer \<Rightarrow> string \<Rightarrow> writer \<times> nat \<times> error option" where
  "wWrite wr p = Write_d (depth wr) wr p"

definition encodeState_Write :: "ctx \<Rightarrow> string \<Rightarrow> ctx \<times> nat \<times> error option" where
  "encodeState_Write c p = Write_on wWrite c p"

definition encodeState_WriteByte :: "ctx \<Rightarrow> char \<Rightarrow> ctx \<times> error option" where
  "encodeState_WriteByte c b =
     (let s = fst c in
      if err s \<noteq> None then (c, err s)
      else
        let (bu1, e) = bufio_WriteByte wWrite (w s, snd c) b
        in ((s\<lparr>w := fst bu1, err := e\<rparr>, snd bu1), e))"

definition encodeState_WriteRune :: "ctx \<Rightarrow> int \<Rightarrow> ctx \<times> nat \<times> error option" where
  "encodeState_WriteRune c r =
     (let s = fst c in
      if err s \<noteq> None then (c, 0, err s)
      else
        let (bu1, n, e) = bufio_WriteRune wWrite (w s, snd c) r
        in ((s\<lparr>w := fst bu1, err := e\<rparr>, snd bu1), n, e))"

definition encodeState_WriteString :: "ctx \<Rightarrow> string \<Rightarrow> ctx \<times> nat \<times> error option" where
  "encodeState_WriteString c str =
     (let s = fst c in
      if err s \<noteq> None then (c, 0, err s)
      else
        let (bu1, n, e) = bufio_WriteString wWrite (w s, snd c) str
        in ((s\<lparr>w := fst bu1, err := e\<rparr>, snd bu1), n, e))"

definition encodeState_Close :: "ctx \<Rightarrow> ctx \<times> error option" where
  "encodeState_Close c =
     (let s = fst c in
      if err s \<noteq> None then (c, err s)
      else
        let (bu1, e) = bufio_Flush wWrite (w s, snd c)
        in ((s\<lparr>w := fst bu1, err := e\<rparr>, snd bu1), e))"

definition objName :: "encodeState \<Rightarrow> string \<Rightarrow> encodeState \<times> int" where
  "objName s name =
     (let m = (case names s of None \<Rightarrow> Map.empty | Some m0 \<Rightarrow> m0) in
      case m name of
        Some n \<Rightarrow> (s\<lparr>names := Some m\<rparr>, n)
      | None \<Rightarrow> (s\<lparr>nextName := nextName s + 1, names := Some (m(name \<mapsto> nextName s))\<rparr>, nextName s))"

text \<open>
  \<open>io.WriteString\<close> calls the \<open>WriteString\<close> method where the writer has one, as
  \<open>encodeState\<close> does. \<open>fmt.Fprint\<close> and \<open>fmt.Fprintf\<close> format their text and pass it to the
  \<open>Write\<close> method in one call, whose error they return.
\<close>

definition io_WriteString :: "writer \<Rightarrow> string \<Rightarrow> writer \<times> nat \<times> error option" where
  "io_WriteString wr str =
     (case wr of
        Sink k \<Rightarrow> (let (k1, n, e) = sink_Write k str in (Sink k1, n, e))
      | Enc s u \<Rightarrow> (let (c1, n, e) = encodeState_WriteString (s, u) str in (Enc (fst c1) (snd c1), n, e)))"

definition fmt_Fprint :: "ctx \<Rightarrow> string \<Rightarrow> ctx \<times> error option" where
  "fmt_Fprint c str = (let (c1, n, e) = encodeState_Write c str in (c1, e))"

section \<open>The objects and their \<open>encode\<close> methods\<close>

text \<open>
  An \<open>Object\<close> is an interface value, so wherever one is held it may be \<open>nil\<close>: \<open>None\<close>.
  \<open>Real\<close> carries the text that \<open>%#f\<close> prints for its \<open>float64\<close>. \<open>Dict\<close> lists the entries
  of the Go map in the order in which \<open>range\<close> visits them. \<open>Stream\<close> carries the bytes
  that its reader \<open>Data\<close> yields before the end of its input, or \<open>None\<close> for a \<open>nil\<close> reader.
\<close>

datatype Object =
    Boolean bool
  | Integer int
  | Real string
  | LiteralString string
  | HexString string
  | Name string
  | Array "Object option list"
  | Dict "(string \<times> Object option) list"
  | Stream int "string option"
  | Indirect string "Object option"
  | Reference string

definition Boolean_encode :: "bool \<Rightarrow> ctx \<Rightarrow> ctx \<times> error option" where
  "Boolean_encode b c = fmt_Fprint c (fmt_bool b)"

definition Integer_encode :: "int \<Rightarrow> ctx \<Rightarrow> ctx \<times> error option" where
  "Integer_encode i c = fmt_Fprint c (fmt_d i)"

definition Real_encode :: "string \<Rightarrow> ctx \<Rightarrow> ctx \<times> error option" where
  "Real_encode r c = fmt_Fprint c r"

text \<open>
  The \<open>strings.Replacer\<close> of \<open>LiteralString.encode\<close>: it replaces single bytes by strings, so
  its \<open>WriteString\<close> passes each run of other bytes to \<open>WriteString\<close> and each replacement to
  \<open>Write\<close>, and stops at the first error. \<open>pending\<close> is the run read so far.
\<close>

definition replacement :: "char \<Rightarrow> string option" where
  "replacement b =
     (if b = CHR ''('' then Some [CHR 0x5C, CHR ''(''] 
      else if b = CHR '')'' then Some [CHR 0x5C, CHR '')'']
      else if b = CHR 0x5C then Some [CHR 0x5C, CHR 0x5C]
      else None)"

definition write_pending :: "ctx \<Rightarrow> string \<Rightarrow> ctx \<times> error option" where
  "write_pending c pending =
     (if pending = [] then (c, None)
      else let (c1, n, e) = encodeState_WriteString c pending in (c1, e))"

fun Replacer_WriteString :: "ctx \<Rightarrow> string \<Rightarrow> string \<Rightarrow> ctx \<times> error option" where
  "Replacer_WriteString c pending [] = write_pending c pending"
| "Replacer_WriteString c pending (b # rest) =
     (case replacement b of
        None \<Rightarrow> Replacer_WriteString c (pending @ [b]) rest
      | Some new \<Rightarrow>
          (let (c1, e1) = write_pending c pending in
           if e1 \<noteq> None then (c1, e1)
           else
             let (c2, n, e2) = encodeState_Write c1 new in
             if e2 \<noteq> None then (c2, e2) else Replacer_WriteString c2 [] rest))"

definition LiteralString_encode :: "string \<Rightarrow> ctx \<Rightarrow> ctx \<times> error option" where
  "LiteralString_encode str c =
     (let (c1, e1) = encodeState_WriteByte c CHR ''('';
          (c2, e2) = Replacer_WriteString c1 [] str;
          (c3, e3) = encodeState_WriteByte c2 CHR '')''
      in (c3, None))"

definition HexString_encode :: "string \<Rightarrow> ctx \<Rightarrow> ctx \<times> error option" where
  "HexString_encode str c = fmt_Fprint c (''<'' @ fmt_X_bytes str @ ''>'')"

fun Name_loop :: "int list \<Rightarrow> ctx \<Rightarrow> ctx \<times> error option" where
  "Name_loop [] c = (c, None)"
| "Name_loop (r # rs) c =
     (if r < 33 \<or> r > 126 then
        (let (c1, e) = fmt_Fprint c (''#'' @ fmt_X r) in
         if e \<noteq> None then (c1, e) else Name_loop rs c1)
      else if r = 35 then
        (let (c1, n, e) = encodeState_WriteString c ''#23'' in
         if e \<noteq> None then (c1, e) else Name_loop rs c1)
      else
        (let (c1, n, e) = encodeState_WriteRune c r in
         if e \<noteq> None then (c1, e) else Name_loop rs c1))"

definition Name_encode :: "string \<Rightarrow> ctx \<Rightarrow> ctx \<times> error option" where
  "Name_encode n c =
     (let (c1, e1) = encodeState_WriteByte c CHR ''/'' in Name_loop (runes n) c1)"

definition Reference_encode :: "string \<Rightarrow> ctx \<Rightarrow> ctx \<times> error option" where
  "Reference_encode r c =
     (let (s1, n) = objName (fst c) r;
          (c1, e) = Integer_encode n (s1, snd c)
      in if e \<noteq> None then (c1, e)
         else let (c2, m, e2) = encodeState_WriteString c1 '' 0 R'' in (c2, None))"

text \<open>
  \<open>io.CopyN\<close> from a reader that yields \<open>src\<close>: \<open>io.Copy\<close> from the reader limited to \<open>n\<close>
  bytes, through a buffer of 32 KiB, one \<open>Write\<close> for each buffer read; then \<open>EOF\<close> if
  fewer than \<open>n\<close> bytes were copied and no write failed.
\<close>

definition copyBufSize :: nat where
  "copyBufSize = 32768"

function io_Copy :: "ctx \<Rightarrow> string \<Rightarrow> nat \<Rightarrow> ctx \<times> nat \<times> error option" where
  "io_Copy c src written =
     (if src = [] then (c, written, None)
      else
        let (c1, nw, ew) = encodeState_Write c (take copyBufSize src) in
        if ew \<noteq> None then (c1, written + nw, ew)
        else if length (take copyBufSize src) \<noteq> nw then (c1, written + nw, Some ErrShortWrite)
        else io_Copy c1 (drop copyBufSize src) (written + nw))"
  by pat_completeness auto
termination
  by (relation "measure (\<lambda>(c, src, written). length src)") (auto simp: copyBufSize_def)

declare io_Copy.simps [simp del]

definition io_CopyN :: "ctx \<Rightarrow> string \<Rightarrow> int \<Rightarrow> ctx \<times> nat \<times> error option" where
  "io_CopyN c src n =
     (let (c1, written, e) = io_Copy c (take (nat n) src) 0 in
      if int written = n then (c1, written, None)
      else if int written < n \<and> e = None then (c1, written, Some EOF)
      else (c1, written, e))"

text \<open>
  \<open>EncodeObject(s, obj)\<close> inside an \<open>encode\<close> method: the writer passed is the state \<open>s\<close>
  itself, and \<open>s\<close> is what the call leaves of it.
\<close>

definition writer_of :: "ctx \<Rightarrow> writer" where
  "writer_of c = Enc (fst c) (snd c)"

fun ctx_of :: "writer \<Rightarrow> ctx \<Rightarrow> ctx" where
  "ctx_of (Enc s u) c = (s, u)"
| "ctx_of (Sink k) c = c"

text \<open>The measure of the recursion: \<open>Stream.encode\<close> encodes a dictionary it builds.\<close>

fun weight :: "Object \<Rightarrow> nat"
  and weightO :: "Object option \<Rightarrow> nat"
  and weightL :: "Object option list \<Rightarrow> nat"
  and weightD :: "(string \<times> Object option) list \<Rightarrow> nat"
where
  "weight (Array a) = Suc (weightL a)"
| "weight (Dict d) = Suc (weightD d)"
| "weight (Stream n data) = 8"
| "weight (Indirect name obj) = Suc (weightO obj)"
| "weight (Boolean b) = 0"
| "weight (Integer i) = 0"
| "weight (Real r) = 0"
| "weight (LiteralString str) = 0"
| "weight (HexString str) = 0"
| "weight (Name n) = 0"
| "weight (Reference r) = 0"
| "weightO None = 0"
| "weightO (Some obj) = Suc (weight obj)"
| "weightL [] = 0"
| "weightL (x # xs) = Suc (weightO x + weightL xs)"
| "weightD [] = 0"
| "weightD (kv # d) = 3 + weightO (snd kv) + weightD d"

function encode :: "Object \<Rightarrow> ctx \<Rightarrow> ctx \<times> outcome"
  and EncodeObject :: "writer \<Rightarrow> Object option \<Rightarrow> writer \<times> outcome"
  and Array_loop :: "Object option list \<Rightarrow> string \<Rightarrow> ctx \<Rightarrow> ctx \<times> outcome"
  and Dict_loop :: "(string \<times> Object option) list \<Rightarrow> ctx \<Rightarrow> ctx \<times> outcome"
where
  "encode (Boolean b) c = (let (c1, e) = Boolean_encode b c in (c1, Returns e))"
| "encode (Integer i) c = (let (c1, e) = Integer_encode i c in (c1, Returns e))"
| "encode (Real r) c = (let (c1, e) = Real_encode r c in (c1, Returns e))"
| "encode (LiteralString str) c = (let (c1, e) = LiteralString_encode str c in (c1, Returns e))"
| "encode (HexString str) c = (let (c1, e) = HexString_encode str c in (c1, Returns e))"
| "encode (Name n) c = (let (c1, e) = Name_encode n c in (c1, Returns e))"
| "encode (Reference r) c = (let (c1, e) = Reference_encode r c in (c1, Returns e))"
| "encode (Array a) c =
     (let (c1, e1) = encodeState_WriteByte c CHR ''['';
          (c2, r) = Array_loop a [] c1
      in if r \<noteq> Returns None then (c2, r)
         else let (c3, e3) = encodeState_WriteByte c2 CHR '']'' in (c3, Returns None))"
| "encode (Dict d) c =
     (let (c1, n1, e1) = encodeState_WriteString c ''<<'';
          (c2, r) = Dict_loop d c1
      in if r \<noteq> Returns None then (c2, r)
         else let (c3, n3, e3) = encodeState_WriteString c2 (newline @ ''>>'') in (c3, Returns None))"
| "encode (Stream n data) c =
     (let (wr1, r) = EncodeObject (writer_of c) (Some (Dict [(''Length'', Some (Integer n))]));
          c1 = ctx_of wr1 c
      in if r \<noteq> Returns None then (c1, r)
         else
           let (c2, n2, e2) = encodeState_WriteString c1 (newline @ ''stream'' @ newline) in
           case data of
             None \<Rightarrow> if 0 < n then (c2, Panics)
                     else let (c4, n4, e4) = encodeState_WriteString c2 (newline @ ''endstream'' @ newline)
                          in (c4, Returns None)
           | Some src \<Rightarrow>
               let (c3, n3, e3) = io_CopyN c2 src n in
               if e3 \<noteq> None then (c3, Returns e3)
               else let (c4, n4, e4) = encodeState_WriteString c3 (newline @ ''endstream'' @ newline)
                    in (c4, Returns None))"
| "encode (Indirect name obj) c =
     (let (s1, n) = objName (fst c) name;
          (c1, e) = Integer_encode n (s1, snd c)
      in if e \<noteq> None then (c1, Returns e)
         else
           let (c2, n2, e2) = encodeState_WriteString c1 ('' 0 obj'' @ newline) in
           case obj of
             None \<Rightarrow> (c2, Panics)
           | Some ob \<Rightarrow>
               let (c3, r) = encode ob c2 in
               if r \<noteq> Returns None then (c3, r)
               else let (c4, n4, e4) = encodeState_WriteString c3 (newline @ ''endobj'' @ newline)
                    in (c4, Returns None))"
| "EncodeObject wr None = (let (wr1, n, e) = io_WriteString wr ''null'' in (wr1, Returns e))"
| "EncodeObject wr (Some obj) =
     (let ew = \<lparr>w = bufio_NewWriter, err = None, nextName = 0, names = None\<rparr>;
          (c1, r) = encode obj (ew, wr);
          (c2, cerr) = encodeState_Close c1
      in (snd c2,
          case r of
            Panics \<Rightarrow> Panics
          | Returns (Some e) \<Rightarrow> Returns (Some e)
          | Returns None \<Rightarrow> if err (fst c1) \<noteq> None then Returns (err (fst c1)) else Returns cerr))"
| "Array_loop [] spacing c = (c, Returns None)"
| "Array_loop (obj # a) spacing c =
     (let (c1, n, e) = encodeState_WriteString c spacing in
      if e \<noteq> None then (c1, Returns e)
      else
        let (wr2, r) = EncodeObject (writer_of c1) obj;
            c2 = ctx_of wr2 c1
        in if r \<noteq> Returns None then (c2, r) else Array_loop a '' '' c2)"
| "Dict_loop [] c = (c, Returns None)"
| "Dict_loop (kv # d) c =
     (let (c1, e1) = encodeState_WriteByte c CHR 0x0A;
          (wr2, r2) = EncodeObject (writer_of c1) (Some (Name (fst kv)));
          c2 = ctx_of wr2 c1
      in if r2 \<noteq> Returns None then (c2, r2)
         else
           let (c3, e3) = encodeState_WriteByte c2 CHR '' '';
               (wr4, r4) = EncodeObject (writer_of c3) (snd kv);
               c4 = ctx_of wr4 c3
           in if r4 \<noteq> Returns None then (c4, r4) else Dict_loop d c4)"
  by pat_completeness auto
termination
  by (relation "measure (\<lambda>x. case x of
         Inl (Inl (obj, c)) \<Rightarrow> weight obj
       | Inl (Inr (wr, x)) \<Rightarrow> weightO x
       | Inr (Inl (a, spacing, c)) \<Rightarrow> weightL a
       | Inr (Inr (d, c)) \<Rightarrow> weightD d)") auto

section \<open>The document\<close>

text \<open>
  A \<open>PDF\<close> holds its \<open>Body\<close>, a slice of \<open>Indirect\<close> values: each is a name and an object.
  \<open>Encode\<close> takes a pointer to one, \<open>None\<close> when it is \<open>nil\<close>. The end marker is passed to
  \<open>io.WriteString\<close>, which formats nothing, so both of its percent signs are written.
\<close>

record PDF =
  Body :: "(string \<times> Object option) list"

definition Version :: string where
  "Version = ''1.7''"

text \<open>The text of \<open>fmt.Fprintf(bw, "%%PDF-%s\n", Version)\<close>.\<close>

definition header :: string where
  "header = ''%PDF-'' @ Version @ newline"

fun Body_loop :: "(string \<times> Object option) list \<Rightarrow> writer \<Rightarrow> writer \<times> outcome" where
  "Body_loop [] wr = (wr, Returns None)"
| "Body_loop (obj # body) wr =
     (let (wr1, r) = EncodeObject wr (Some (Indirect (fst obj) (snd obj))) in
      if r \<noteq> Returns None then (wr1, r) else Body_loop body wr1)"

text \<open>
  Modelled from the spec: the writer \<open>bw\<close> of the header write. The source calls
  \<open>fmt.Fprintf(bw, ...)\<close>, and no file of the repository declares \<open>bw\<close>. The spec has \<open>Encode\<close>
  write the header line to its output, so the model writes it to \<open>w\<close>, the one writer in
  scope. The rest of \<open>Encode\<close> is the source: the loop over \<open>p.Body\<close>, which dereferences
  \<open>p\<close>, and the write of the marker.
\<close>

definition Encode :: "writer \<Rightarrow> PDF option \<Rightarrow> writer \<times> outcome" where
  "Encode wr p =
     (let (wr1, n, e) = wWrite wr header in
      if e \<noteq> None then (wr1, Returns e)
      else
        case p of
          None \<Rightarrow> (wr1, Panics)
        | Some pdf \<Rightarrow>
            let (wr2, r) = Body_loop (Body pdf) wr1 in
            if r \<noteq> Returns None then (wr2, r)
            else let (wr3, n3, e3) = io_WriteString wr2 ''%%EOF'' in (wr3, Returns e3))"

section \<open>What the proofs speak about\<close>

text \<open>
  The definitions of this section are not part of the encoder. They describe a stack of
  writers: whether the output at the bottom has failed, whether that failure has reached
  the state above it, what has been written and what is still buffered. They give the
  text of an object as a function, \<open>render\<close>, which is proved below to be what \<open>encode\<close>
  writes when no write fails. And they name the objects that hold no \<open>nil\<close> where the code
  dereferences one.
\<close>

text \<open>An error was returned.\<close>

definition is_err :: "error option \<Rightarrow> bool" where
  "is_err e = (e \<noteq> None)"

text \<open>
  \<open>wfailed\<close>: a write on the output at the bottom has failed. \<open>sound\<close>: if so, the state
  directly above the output has recorded an error. \<open>passes v v1 x\<close>: from \<open>v\<close> to \<open>v1\<close> the
  stack keeps its height and stays sound, and if the output failed in between, then \<open>x\<close>.
\<close>

fun wfailed :: "writer \<Rightarrow> bool" where
  "wfailed (Sink k) = failed k"
| "wfailed (Enc s u) = wfailed u"

fun sound :: "writer \<Rightarrow> bool" where
  "sound (Sink k) = True"
| "sound (Enc s (Sink k)) = (failed k \<longrightarrow> err s \<noteq> None)"
| "sound (Enc s (Enc t u)) = sound (Enc t u)"

definition passes :: "writer \<Rightarrow> writer \<Rightarrow> bool \<Rightarrow> bool" where
  "passes v v1 x \<longleftrightarrow>
     depth v1 = depth v \<and> (sound v \<longrightarrow> sound v1) \<and> (\<not> wfailed v \<and> wfailed v1 \<longrightarrow> x)"

text \<open>Two states with the same table of names; what a method of a state does to the stack.\<close>

definition same_tbl :: "encodeState \<Rightarrow> encodeState \<Rightarrow> bool" where
  "same_tbl s t \<longleftrightarrow> nextName s = nextName t \<and> names s = names t"

definition mpasses :: "ctx \<Rightarrow> ctx \<Rightarrow> error option \<Rightarrow> bool" where
  "mpasses c c1 e \<longleftrightarrow>
     passes (writer_of c) (writer_of c1) (is_err e) \<and> same_tbl (fst c) (fst c1)
     \<and> (is_err e \<longrightarrow> err (fst c1) = e) \<and> (err (fst c) \<noteq> None \<longrightarrow> c1 = c \<and> e = err (fst c))"

definition ckeeps :: "ctx \<Rightarrow> ctx \<Rightarrow> bool" where
  "ckeeps c c1 \<longleftrightarrow> passes (writer_of c) (writer_of c1) True"

text \<open>
  A stack on which no error is recorded, over an output that takes everything; the bytes
  it holds, written or buffered; the tables of its states. \<open>grows wr tx wr1\<close>: \<open>wr1\<close> is
  \<open>wr\<close> with \<open>tx\<close> added and the same tables; \<open>wgrows\<close> leaves the table of the top state
  free, since \<open>objName\<close> changes it.
\<close>

fun clean :: "writer \<Rightarrow> bool" where
  "clean (Sink k) = (accept k = (\<lambda>held p. None))"
| "clean (Enc s u) = (err s = None \<and> werr (w s) = None \<and> clean u)"

fun contents :: "writer \<Rightarrow> string" where
  "contents (Sink k) = out k"
| "contents (Enc s u) = contents u @ buf (w s)"

fun tables :: "writer \<Rightarrow> (int \<times> (string \<rightharpoonup> int) option) list" where
  "tables (Sink k) = []"
| "tables (Enc s u) = (nextName s, names s) # tables u"

definition grows :: "writer \<Rightarrow> string \<Rightarrow> writer \<Rightarrow> bool" where
  "grows wr tx wr1 \<longleftrightarrow>
     clean wr1 \<and> depth wr1 = depth wr \<and> tables wr1 = tables wr \<and> contents wr1 = contents wr @ tx"

definition cgrows :: "ctx \<Rightarrow> string \<Rightarrow> ctx \<Rightarrow> bool" where
  "cgrows c tx c1 \<longleftrightarrow> grows (writer_of c) tx (writer_of c1)"

definition wgrows :: "writer \<Rightarrow> string \<Rightarrow> writer \<Rightarrow> bool" where
  "wgrows wr tx wr1 \<longleftrightarrow>
     clean wr1 \<and> depth wr1 = depth wr \<and> tl (tables wr1) = tl (tables wr)
     \<and> contents wr1 = contents wr @ tx"

text \<open>
  The text of an object. \<open>render\<close> follows \<open>encode\<close>, \<open>renderObject\<close> follows
  \<open>EncodeObject\<close>, which starts from \<open>newState\<close>, and \<open>render_elems\<close>, \<open>render_entries\<close>
  and \<open>render_body\<close> follow the loops over an array, a dictionary and a document body.
  Each returns the text written up to the point where the code stops.
\<close>

fun Name_text :: "int list \<Rightarrow> string" where
  "Name_text [] = []"
| "Name_text (r # rs) =
     (if r < 33 \<or> r > 126 then ''#'' @ fmt_X r else if r = 35 then ''#23'' else encodeRune r)
     @ Name_text rs"

fun escaped :: "string \<Rightarrow> string" where
  "escaped [] = []"
| "escaped (b # rest) = (case replacement b of None \<Rightarrow> [b] | Some new \<Rightarrow> new) @ escaped rest"

definition newState :: encodeState where
  "newState = \<lparr>w = bufio_NewWriter, err = None, nextName = 0, names = None\<rparr>"

function render :: "Object \<Rightarrow> encodeState \<Rightarrow> string \<times> encodeState \<times> outcome"
  and renderObject :: "Object option \<Rightarrow> string \<times> outcome"
  and render_elems :: "Object option list \<Rightarrow> string \<Rightarrow> string \<times> outcome"
  and render_entries :: "(string \<times> Object option) list \<Rightarrow> string \<times> outcome"
where
  "render (Boolean b) s = (fmt_bool b, s, Returns None)"
| "render (Integer i) s = (fmt_d i, s, Returns None)"
| "render (Real r) s = (r, s, Returns None)"
| "render (LiteralString str) s = (''('' @ escaped str @ '')'', s, Returns None)"
| "render (HexString str) s = (''<'' @ fmt_X_bytes str @ ''>'', s, Returns None)"
| "render (Name n) s = (''/'' @ Name_text (runes n), s, Returns None)"
| "render (Reference r) s =
     (fmt_d (snd (objName s r)) @ '' 0 R'', fst (objName s r), Returns None)"
| "render (Array a) s =
     (let (t, r) = render_elems a [] in
      if r \<noteq> Returns None then (''['' @ t, s, r) else (''['' @ t @ '']'', s, Returns None))"
| "render (Dict d) s =
     (let (t, r) = render_entries d in
      if r \<noteq> Returns None then (''<<'' @ t, s, r)
      else (''<<'' @ t @ newline @ ''>>'', s, Returns None))"
| "render (Stream n data) s =
     (let (t, r) = renderObject (Some (Dict [(''Length'', Some (Integer n))])) in
      if r \<noteq> Returns None then (t, s, r)
      else
        case data of
          None \<Rightarrow>
            if 0 < n then (t @ newline @ ''stream'' @ newline, s, Panics)
            else (t @ newline @ ''stream'' @ newline @ newline @ ''endstream'' @ newline, s,
                  Returns None)
        | Some src \<Rightarrow>
            if int (length (take (nat n) src)) < n
            then (t @ newline @ ''stream'' @ newline @ take (nat n) src, s, Returns (Some EOF))
            else (t @ newline @ ''stream'' @ newline @ take (nat n) src
                    @ newline @ ''endstream'' @ newline, s, Returns None))"
| "render (Indirect name obj) s =
     (let head = fmt_d (snd (objName s name)) @ '' 0 obj'' @ newline in
      case obj of
        None \<Rightarrow> (head, fst (objName s name), Panics)
      | Some ob \<Rightarrow>
          let (t, s2, r) = render ob (fst (objName s name)) in
          if r \<noteq> Returns None then (head @ t, s2, r)
          else (head @ t @ newline @ ''endobj'' @ newline, s2, Returns None))"
| "renderObject None = (''null'', Returns None)"
| "renderObject (Some obj) = (let (t, s, r) = render obj newState in (t, r))"
| "render_elems [] spacing = ([], Returns None)"
| "render_elems (obj # a) spacing =
     (let (t, r) = renderObject obj in
      if r \<noteq> Returns None then (spacing @ t, r)
      else let (t2, r2) = render_elems a '' '' in (spacing @ t @ t2, r2))"
| "render_entries [] = ([], Returns None)"
| "render_entries (kv # d) =
     (let (tk, rk) = renderObject (Some (Name (fst kv))) in
      if rk \<noteq> Returns None then (newline @ tk, rk)
      else
        let (tv, rv) = renderObject (snd kv) in
        if rv \<noteq> Returns None then (newline @ tk @ '' '' @ tv, rv)
        else let (t2, r2) = render_entries d in (newline @ tk @ '' '' @ tv @ t2, r2))"
  by pat_completeness auto
termination
  by (relation "measure (\<lambda>x. case x of
         Inl (Inl (obj, s)) \<Rightarrow> weight obj
       | Inl (Inr x) \<Rightarrow> weightO x
       | Inr (Inl (a, spacing)) \<Rightarrow> weightL a
       | Inr (Inr d) \<Rightarrow> weightD d)") auto

fun render_body :: "(string \<times> Object option) list \<Rightarrow> string \<times> outcome" where
  "render_body [] = ([], Returns None)"
| "render_body (ob # body) =
     (let (t, r) = renderObject (Some (Indirect (fst ob) (snd ob))) in
      if r \<noteq> Returns None then (t, r)
      else let (t2, r2) = render_body body in (t @ t2, r2))"

text \<open>The statements of the two inductions over \<open>encode\<close>.\<close>

definition P_clean :: "Object \<Rightarrow> ctx \<Rightarrow> bool" where
  "P_clean obj c \<longleftrightarrow>
     (clean (writer_of c) \<longrightarrow>
       (\<forall>s. same_tbl s (fst c) \<longrightarrow>
         (\<exists>c1. encode obj c = (c1, snd (snd (render obj s)))
            \<and> wgrows (writer_of c) (fst (render obj s)) (writer_of c1)
            \<and> same_tbl (fst (snd (render obj s))) (fst c1))))"

definition Q_clean :: "writer \<Rightarrow> Object option \<Rightarrow> bool" where
  "Q_clean wr x \<longleftrightarrow>
     (clean wr \<longrightarrow>
       (\<exists>wr1. EncodeObject wr x = (wr1, snd (renderObject x)) \<and> grows wr (fst (renderObject x)) wr1))"

definition R_clean :: "Object option list \<Rightarrow> string \<Rightarrow> ctx \<Rightarrow> bool" where
  "R_clean a spacing c \<longleftrightarrow>
     (clean (writer_of c) \<longrightarrow>
       (\<exists>c1. Array_loop a spacing c = (c1, snd (render_elems a spacing))
          \<and> cgrows c (fst (render_elems a spacing)) c1))"

definition S_clean :: "(string \<times> Object option) list \<Rightarrow> ctx \<Rightarrow> bool" where
  "S_clean d c \<longleftrightarrow>
     (clean (writer_of c) \<longrightarrow>
       (\<exists>c1. Dict_loop d c = (c1, snd (render_entries d)) \<and> cgrows c (fst (render_entries d)) c1))"

definition P_k :: "Object \<Rightarrow> ctx \<Rightarrow> bool" where
  "P_k obj c \<longleftrightarrow> ckeeps c (fst (encode obj c))"
definition Q_k :: "writer \<Rightarrow> Object option \<Rightarrow> bool" where
  "Q_k wr x \<longleftrightarrow> passes wr (fst (EncodeObject wr x)) True"
definition R_k :: "Object option list \<Rightarrow> string \<Rightarrow> ctx \<Rightarrow> bool" where
  "R_k a spacing c \<longleftrightarrow> ckeeps c (fst (Array_loop a spacing c))"
definition S_k :: "(string \<times> Object option) list \<Rightarrow> ctx \<Rightarrow> bool" where
  "S_k d c \<longleftrightarrow> ckeeps c (fst (Dict_loop d c))"

text \<open>
  Objects that hold no \<open>nil\<close> where the code dereferences one: the object of an
  \<open>Indirect\<close>, and the reader of a \<open>Stream\<close> of positive length.
\<close>

fun nil_free :: "Object \<Rightarrow> bool"
  and nil_freeO :: "Object option \<Rightarrow> bool"
  and nil_freeL :: "Object option list \<Rightarrow> bool"
  and nil_freeD :: "(string \<times> Object option) list \<Rightarrow> bool"
where
  "nil_free (Array a) = nil_freeL a"
| "nil_free (Dict d) = nil_freeD d"
| "nil_free (Stream n data) = (data \<noteq> None \<or> n \<le> 0)"
| "nil_free (Indirect name obj) = (obj \<noteq> None \<and> nil_freeO obj)"
| "nil_free (Boolean b) = True"
| "nil_free (Integer i) = True"
| "nil_free (Real r) = True"
| "nil_free (LiteralString str) = True"
| "nil_free (HexString str) = True"
| "nil_free (Name n) = True"
| "nil_free (Reference r) = True"
| "nil_freeO None = True"
| "nil_freeO (Some obj) = nil_free obj"
| "nil_freeL [] = True"
| "nil_freeL (x # xs) = (nil_freeO x \<and> nil_freeL xs)"
| "nil_freeD [] = True"
| "nil_freeD (kv # d) = (nil_freeO (snd kv) \<and> nil_freeD d)"

text \<open>
  What \<open>EncodeObject\<close> writes to an output that never fails, and what it returns there.
  \<open>lookup\<close> reads the table of a state, a \<open>nil\<close> map being empty. \<open>separated\<close> puts one
  space between the texts of a list.
\<close>

fun sink_of :: "writer \<Rightarrow> sink" where
  "sink_of (Sink k) = k"
| "sink_of (Enc s u) = sink_of u"

definition output_of :: "Object option \<Rightarrow> string" where
  "output_of x = out (sink_of (fst (EncodeObject (Sink good_sink) x)))"

definition outcome_of :: "Object option \<Rightarrow> outcome" where
  "outcome_of x = snd (EncodeObject (Sink good_sink) x)"

definition lookup :: "encodeState \<Rightarrow> (string \<rightharpoonup> int)" where
  "lookup s = (case names s of None \<Rightarrow> Map.empty | Some m \<Rightarrow> m)"

fun separated :: "string list \<Rightarrow> string" where
  "separated [] = []"
| "separated [t] = t"
| "separated (t # u # ts) = t @ '' '' @ separated (u # ts)"

text \<open>
  The objects of a document body encoded in order, each by \<open>EncodeObject\<close> on the writer
  that the one before it left: \<open>written_objects\<close> is the writer after them, and
  \<open>all_encoded\<close> says that every one of these calls returned \<open>nil\<close>.
\<close>

fun written_objects :: "(string \<times> Object option) list \<Rightarrow> writer \<Rightarrow> writer" where
  "written_objects [] wr = wr"
| "written_objects (ob # body) wr =
     written_objects body (fst (EncodeObject wr (Some (Indirect (fst ob) (snd ob)))))"

fun all_encoded :: "(string \<times> Object option) list \<Rightarrow> writer \<Rightarrow> bool" where
  "all_encoded [] wr = True"
| "all_encoded (ob # body) wr =
     (snd (EncodeObject wr (Some (Indirect (fst ob) (snd ob)))) = Returns None
      \<and> all_encoded body (fst (EncodeObject wr (Some (Indirect (fst ob) (snd ob))))))"

section \<open>Lemmas\<close>

subsection \<open>The buffered writer, case by case\<close>

lemma is_err_simps [simp]: "is_err None = False" "is_err (Some x) = True"
  by (simp_all add: is_err_def)

lemma bufio_Flush_noop:
  "werr (fst bu) \<noteq> None \<Longrightarrow> bufio_Flush uw bu = (bu, werr (fst bu))"
  by (auto simp: bufio_Flush_def Let_def)

lemma bufio_Flush_empty:
  "werr (fst bu) = None \<Longrightarrow> buf (fst bu) = [] \<Longrightarrow> bufio_Flush uw bu = (bu, None)"
  by (auto simp: bufio_Flush_def Let_def)

lemma bufio_Flush_write:
  "werr (fst bu) = None \<Longrightarrow> buf (fst bu) \<noteq> [] \<Longrightarrow> uw (snd bu) (buf (fst bu)) = (u1, n, e) \<Longrightarrow>
   bufio_Flush uw bu =
     (if e = None \<and> \<not> n < length (buf (fst bu)) then (((fst bu)\<lparr>buf := []\<rparr>, u1), None)
      else (((fst bu)\<lparr>buf := drop n (buf (fst bu)),
                      werr := (if e = None then Some ErrShortWrite else e)\<rparr>, u1),
            (if e = None then Some ErrShortWrite else e)))"
  by (auto simp: bufio_Flush_def Let_def)

lemma bufio_Write_err:
  "werr (fst bu) \<noteq> None \<Longrightarrow> bufio_Write uw bu p = (bu, 0, werr (fst bu))"
  by (auto simp: bufio_Write_def Let_def)

lemma bufio_Write_fits:
  "werr (fst bu) = None \<Longrightarrow> length p \<le> Available (fst bu) \<Longrightarrow>
   bufio_Write uw bu p = (((fst bu)\<lparr>buf := buf (fst bu) @ p\<rparr>, snd bu), length p, None)"
  by (auto simp: bufio_Write_def Let_def)

lemma bufio_Write_large:
  "werr (fst bu) = None \<Longrightarrow> \<not> length p \<le> Available (fst bu) \<Longrightarrow> buf (fst bu) = [] \<Longrightarrow>
   bufio_Write uw bu p = bufio_Write_direct uw bu p 0"
  by (auto simp: bufio_Write_def Let_def)

lemma bufio_Write_fill:
  "werr (fst bu) = None \<Longrightarrow> \<not> length p \<le> Available (fst bu) \<Longrightarrow> buf (fst bu) \<noteq> [] \<Longrightarrow>
   bufio_Flush uw ((fst bu)\<lparr>buf := buf (fst bu) @ take (Available (fst bu)) p\<rparr>, snd bu) = (bu2, fe) \<Longrightarrow>
   bufio_Write uw bu p =
     (if werr (fst bu2) \<noteq> None then (bu2, Available (fst bu), werr (fst bu2))
      else if length (drop (Available (fst bu)) p) \<le> Available (fst bu2)
        then (((fst bu2)\<lparr>buf := buf (fst bu2) @ drop (Available (fst bu)) p\<rparr>, snd bu2),
              Available (fst bu) + length (drop (Available (fst bu)) p), None)
      else bufio_Write_direct uw bu2 (drop (Available (fst bu)) p) (Available (fst bu)))"
  by (auto simp: bufio_Write_def Let_def)

lemma bufio_WriteByte_err:
  "werr (fst bu) \<noteq> None \<Longrightarrow> bufio_WriteByte uw bu c = (bu, werr (fst bu))"
  by (auto simp: bufio_WriteByte_def Let_def)

lemma bufio_WriteByte_room:
  "werr (fst bu) = None \<Longrightarrow> \<not> Available (fst bu) \<le> 0 \<Longrightarrow>
   bufio_WriteByte uw bu c = (((fst bu)\<lparr>buf := buf (fst bu) @ [c]\<rparr>, snd bu), None)"
  by (auto simp: bufio_WriteByte_def Let_def)

lemma bufio_WriteByte_full:
  "werr (fst bu) = None \<Longrightarrow> Available (fst bu) \<le> 0 \<Longrightarrow> bufio_Flush uw bu = (bu2, fe) \<Longrightarrow>
   bufio_WriteByte uw bu c =
     (if fe \<noteq> None then (bu2, werr (fst bu2))
      else (((fst bu2)\<lparr>buf := buf (fst bu2) @ [c]\<rparr>, snd bu2), None))"
  by (auto simp: bufio_WriteByte_def Let_def)

lemma bufio_WriteRune_ascii:
  "0 \<le> r \<Longrightarrow> r < 128 \<Longrightarrow> bufio_WriteByte uw bu (char_of (nat r)) = (bu2, e) \<Longrightarrow>
   bufio_WriteRune uw bu r = (if e \<noteq> None then (bu2, 0, e) else (bu2, 1, None))"
  by (auto simp: bufio_WriteRune_def Let_def)

lemma bufio_WriteRune_err:
  "\<not> (0 \<le> r \<and> r < 128) \<Longrightarrow> werr (fst bu) \<noteq> None \<Longrightarrow>
   bufio_WriteRune uw bu r = (bu, 0, werr (fst bu))"
  by (auto simp: bufio_WriteRune_def Let_def)

lemma bufio_WriteRune_room:
  "\<not> (0 \<le> r \<and> r < 128) \<Longrightarrow> werr (fst bu) = None \<Longrightarrow> \<not> Available (fst bu) < 4 \<Longrightarrow>
   bufio_WriteRune uw bu r =
     (((fst bu)\<lparr>buf := buf (fst bu) @ encodeRune r\<rparr>, snd bu), length (encodeRune r), None)"
  by (auto simp: bufio_WriteRune_def Let_def)

lemma bufio_WriteRune_full:
  "\<not> (0 \<le> r \<and> r < 128) \<Longrightarrow> werr (fst bu) = None \<Longrightarrow> Available (fst bu) < 4 \<Longrightarrow>
   bufio_Flush uw bu = (bu2, fe) \<Longrightarrow>
   bufio_WriteRune uw bu r =
     (if werr (fst bu2) \<noteq> None then (bu2, 0, werr (fst bu2))
      else (((fst bu2)\<lparr>buf := buf (fst bu2) @ encodeRune r\<rparr>, snd bu2), length (encodeRune r), None))"
  by (auto simp: bufio_WriteRune_def Let_def)

subsection \<open>What holds of every call of the wrapped writer holds of the buffered writer\<close>

lemma bufio_Flush_rel:
  assumes step: "\<forall>v q v1 n e. uw v q = (v1, n, e) \<longrightarrow> R v v1 (is_err e)"
    and refl: "\<forall>v. R v v False"
    and weak: "\<forall>a b. R a b False \<longrightarrow> R a b True"
    and run: "bufio_Flush uw bu = (bu1, e)"
  shows "R (snd bu) (snd bu1) (is_err e)"
    and "is_err e \<longleftrightarrow> werr (fst bu1) \<noteq> None"
    and "werr (fst bu1) \<noteq> None \<Longrightarrow> werr (fst bu1) = e"
    and "werr (fst bu1) = None \<Longrightarrow> buf (fst bu1) = []"
proof -
  have rt: "\<And>v. R v v True" using refl weak by blast
  consider (noop) "werr (fst bu) \<noteq> None" | (empty) "werr (fst bu) = None" "buf (fst bu) = []"
    | (wr) "werr (fst bu) = None" "buf (fst bu) \<noteq> []" by blast
  then have "R (snd bu) (snd bu1) (is_err e) \<and> (is_err e \<longleftrightarrow> werr (fst bu1) \<noteq> None)
       \<and> (werr (fst bu1) \<noteq> None \<longrightarrow> werr (fst bu1) = e) \<and> (werr (fst bu1) = None \<longrightarrow> buf (fst bu1) = [])"
  proof cases
    case noop
    then have "bu1 = bu" "e = werr (fst bu)" using run by (auto simp: bufio_Flush_noop)
    then show ?thesis using noop rt by (auto simp: is_err_def)
  next
    case empty
    then have "bu1 = bu" "e = None" using run by (auto simp: bufio_Flush_empty)
    then show ?thesis using empty refl by simp
  next
    case wr
    obtain u1 n e0 where u: "uw (snd bu) (buf (fst bu)) = (u1, n, e0)"
      by (cases "uw (snd bu) (buf (fst bu))") auto
    have r: "R (snd bu) u1 (is_err e0)" using step u by blast
    have eq: "(bu1, e) = (if e0 = None \<and> \<not> n < length (buf (fst bu)) then (((fst bu)\<lparr>buf := []\<rparr>, u1), None)
      else (((fst bu)\<lparr>buf := drop n (buf (fst bu)),
                      werr := (if e0 = None then Some ErrShortWrite else e0)\<rparr>, u1),
            (if e0 = None then Some ErrShortWrite else e0)))"
      using bufio_Flush_write[where uw = uw, OF wr u] run by simp
    show ?thesis
    proof (cases e0)
      case None
      then show ?thesis using eq r weak wr by (cases "n < length (buf (fst bu))") auto
    next
      case (Some x)
      then show ?thesis using eq r wr by auto
    qed
  qed
  then show "R (snd bu) (snd bu1) (is_err e)"
    and "is_err e \<longleftrightarrow> werr (fst bu1) \<noteq> None"
    and "werr (fst bu1) \<noteq> None \<Longrightarrow> werr (fst bu1) = e"
    and "werr (fst bu1) = None \<Longrightarrow> buf (fst bu1) = []" by auto
qed

lemma bufio_Write_direct_rel:
  assumes step: "\<forall>v q v1 n e. uw v q = (v1, n, e) \<longrightarrow> R v v1 (is_err e)"
    and run: "bufio_Write_direct uw bu p nn = (bu1, m, e)"
  shows "R (snd bu) (snd bu1) (is_err e)" and "werr (fst bu1) = e"
proof -
  obtain u1 n e0 where u: "uw (snd bu) p = (u1, n, e0)"
    by (cases "uw (snd bu) p") auto
  have "R (snd bu) u1 (is_err e0)" using step u by blast
  then show "R (snd bu) (snd bu1) (is_err e)" and "werr (fst bu1) = e" using run u
    by (auto simp: bufio_Write_direct_def)
qed

lemma bufio_Write_rel:
  assumes step: "\<forall>v q v1 n e. uw v q = (v1, n, e) \<longrightarrow> R v v1 (is_err e)"
    and refl: "\<forall>v. R v v False"
    and weak: "\<forall>a b. R a b False \<longrightarrow> R a b True"
    and trans: "\<forall>a b c y. R a b False \<longrightarrow> R b c y \<longrightarrow> R a c y"
    and run: "bufio_Write uw bu p = (bu1, m, e)"
  shows "R (snd bu) (snd bu1) (is_err e)" and "werr (fst bu1) \<noteq> None \<Longrightarrow> is_err e"
proof -
  have rt: "\<And>v. R v v True" using refl weak by blast
  let ?b = "fst bu" and ?u = "snd bu"
  consider (err) "werr ?b \<noteq> None"
    | (fits) "werr ?b = None" "length p \<le> Available ?b"
    | (direct) "werr ?b = None" "\<not> length p \<le> Available ?b" "buf ?b = []"
    | (fill) "werr ?b = None" "\<not> length p \<le> Available ?b" "buf ?b \<noteq> []"
    by blast
  then have "R (snd bu) (snd bu1) (is_err e) \<and> (werr (fst bu1) \<noteq> None \<longrightarrow> is_err e)"
  proof cases
    case err
    then have "bu1 = bu" "e = werr ?b" using run by (auto simp: bufio_Write_err)
    then show ?thesis using err rt by (auto simp: is_err_def)
  next
    case fits
    then have "snd bu1 = ?u" "e = None" "werr (fst bu1) = None"
      using run by (auto simp add: bufio_Write_fits)
    then show ?thesis using refl by simp
  next
    case direct
    then have "bufio_Write_direct uw bu p 0 = (bu1, m, e)"
      using run by (simp add: bufio_Write_large)
    from bufio_Write_direct_rel[where uw = uw and R = R, OF step this] show ?thesis by (auto simp: is_err_def)
  next
    case fill
    let ?n = "Available ?b"
    let ?bu0 = "(?b\<lparr>buf := buf ?b @ take ?n p\<rparr>, ?u)"
    obtain bu2 fe where fl: "bufio_Flush uw ?bu0 = (bu2, fe)"
      by (cases "bufio_Flush uw ?bu0") auto
    note F = bufio_Flush_rel[where uw = uw and R = R, OF step refl weak fl]
    have eq: "(bu1, m, e) = (if werr (fst bu2) \<noteq> None then (bu2, ?n, werr (fst bu2))
      else if length (drop ?n p) \<le> Available (fst bu2)
        then (((fst bu2)\<lparr>buf := buf (fst bu2) @ drop ?n p\<rparr>, snd bu2),
              ?n + length (drop ?n p), None)
      else bufio_Write_direct uw bu2 (drop ?n p) ?n)"
      using bufio_Write_fill[where uw = uw, OF fill fl] run by simp
    show ?thesis
    proof (cases "werr (fst bu2) \<noteq> None")
      case True
      then have "bu1 = bu2" "e = werr (fst bu2)" using eq by auto
      then show ?thesis using F(1,3) True by (auto simp: is_err_def)
    next
      case False
      then have fe: "\<not> is_err fe" using F(2) by auto
      show ?thesis
      proof (cases "length (drop ?n p) \<le> Available (fst bu2)")
        case True
        then have "snd bu1 = snd bu2" "e = None" "werr (fst bu1) = None"
          using eq False by auto
        then show ?thesis using F(1) fe by auto
      next
        case nofit: False
        then have d: "bufio_Write_direct uw bu2 (drop ?n p) ?n = (bu1, m, e)"
          using eq False by auto
        note D = bufio_Write_direct_rel[where uw = uw and R = R, OF step d]
        from F(1) fe have "R ?u (snd bu2) False" by simp
        with trans D(1) have "R ?u (snd bu1) (is_err e)" by blast
        with D(2) show ?thesis by (auto simp: is_err_def)
      qed
    qed
  qed
  then show "R (snd bu) (snd bu1) (is_err e)" and "werr (fst bu1) \<noteq> None \<Longrightarrow> is_err e" by auto
qed

lemma bufio_WriteByte_rel:
  assumes step: "\<forall>v q v1 n e. uw v q = (v1, n, e) \<longrightarrow> R v v1 (is_err e)"
    and refl: "\<forall>v. R v v False"
    and weak: "\<forall>a b. R a b False \<longrightarrow> R a b True"
    and run: "bufio_WriteByte uw bu c = (bu1, e)"
  shows "R (snd bu) (snd bu1) (is_err e)" and "werr (fst bu1) \<noteq> None \<Longrightarrow> is_err e"
proof -
  have rt: "\<And>v. R v v True" using refl weak by blast
  consider (err) "werr (fst bu) \<noteq> None" | (room) "werr (fst bu) = None" "\<not> Available (fst bu) \<le> 0"
    | (full) "werr (fst bu) = None" "Available (fst bu) \<le> 0" by blast
  then have "R (snd bu) (snd bu1) (is_err e) \<and> (werr (fst bu1) \<noteq> None \<longrightarrow> is_err e)"
  proof cases
    case err
    then have "bu1 = bu" "e = werr (fst bu)" using run by (auto simp: bufio_WriteByte_err)
    then show ?thesis using err rt by (auto simp: is_err_def)
  next
    case room
    then have "snd bu1 = snd bu" "e = None" "werr (fst bu1) = None"
      using run by (auto simp: bufio_WriteByte_room)
    then show ?thesis using refl by simp
  next
    case full
    obtain bu2 fe where fl: "bufio_Flush uw bu = (bu2, fe)"
      by (cases "bufio_Flush uw bu") auto
    note F = bufio_Flush_rel[where uw = uw and R = R, OF step refl weak fl]
    have eq: "(bu1, e) = (if fe \<noteq> None then (bu2, werr (fst bu2))
      else (((fst bu2)\<lparr>buf := buf (fst bu2) @ [c]\<rparr>, snd bu2), None))"
      using bufio_WriteByte_full[where uw = uw, OF full fl] run by simp
    show ?thesis
    proof (cases "fe")
      case None
      then show ?thesis using eq F(1,2) by auto
    next
      case (Some x)
      then show ?thesis using eq F(1,2,3) by auto
    qed
  qed
  then show "R (snd bu) (snd bu1) (is_err e)" and "werr (fst bu1) \<noteq> None \<Longrightarrow> is_err e" by auto
qed

lemma bufio_WriteRune_rel:
  assumes step: "\<forall>v q v1 n e. uw v q = (v1, n, e) \<longrightarrow> R v v1 (is_err e)"
    and refl: "\<forall>v. R v v False"
    and weak: "\<forall>a b. R a b False \<longrightarrow> R a b True"
    and run: "bufio_WriteRune uw bu r = (bu1, m, e)"
  shows "R (snd bu) (snd bu1) (is_err e)" and "werr (fst bu1) \<noteq> None \<Longrightarrow> is_err e"
proof -
  have rt: "\<And>v. R v v True" using refl weak by blast
  consider (ascii) "0 \<le> r" "r < 128"
    | (err) "\<not> (0 \<le> r \<and> r < 128)" "werr (fst bu) \<noteq> None"
    | (room) "\<not> (0 \<le> r \<and> r < 128)" "werr (fst bu) = None" "\<not> Available (fst bu) < 4"
    | (full) "\<not> (0 \<le> r \<and> r < 128)" "werr (fst bu) = None" "Available (fst bu) < 4" by blast
  then have "R (snd bu) (snd bu1) (is_err e) \<and> (werr (fst bu1) \<noteq> None \<longrightarrow> is_err e)"
  proof cases
    case ascii
    obtain bu2 e2 where wb: "bufio_WriteByte uw bu (char_of (nat r)) = (bu2, e2)"
      by (cases "bufio_WriteByte uw bu (char_of (nat r))") auto
    note B = bufio_WriteByte_rel[where uw = uw and R = R, OF step refl weak wb]
    have "bu1 = bu2" "e = e2" using bufio_WriteRune_ascii[where uw = uw, OF ascii wb] run by (auto split: if_splits)
    then show ?thesis using B by auto
  next
    case err
    then have "bu1 = bu" "e = werr (fst bu)" using run by (auto simp: bufio_WriteRune_err)
    then show ?thesis using err rt by (auto simp: is_err_def)
  next
    case room
    then have "snd bu1 = snd bu" "e = None" "werr (fst bu1) = None"
      using run by (auto simp: bufio_WriteRune_room)
    then show ?thesis using refl by simp
  next
    case full
    obtain bu2 fe where fl: "bufio_Flush uw bu = (bu2, fe)"
      by (cases "bufio_Flush uw bu") auto
    note F = bufio_Flush_rel[where uw = uw and R = R, OF step refl weak fl]
    have eq: "(bu1, m, e) = (if werr (fst bu2) \<noteq> None then (bu2, 0, werr (fst bu2))
      else (((fst bu2)\<lparr>buf := buf (fst bu2) @ encodeRune r\<rparr>, snd bu2), length (encodeRune r), None))"
      using bufio_WriteRune_full[where uw = uw, OF full fl] run by simp
    show ?thesis
    proof (cases "werr (fst bu2)")
      case None
      then show ?thesis using eq F(1,2) by auto
    next
      case (Some x)
      then have "bu1 = bu2" "e = Some x" "fe = Some x" using eq F(3) by auto
      then show ?thesis using F(1) by auto
    qed
  qed
  then show "R (snd bu) (snd bu1) (is_err e)" and "werr (fst bu1) \<noteq> None \<Longrightarrow> is_err e" by auto
qed

subsection \<open>The buffered writer over a writer that never fails\<close>

lemma bufio_Flush_clean:
  assumes uw: "\<forall>v q. C v \<longrightarrow> (\<exists>v1. uw v q = (v1, length q, None) \<and> C v1 \<and> cont v1 = cont v @ q)"
    and C: "C (snd bu)" and ne: "werr (fst bu) = None"
  shows "\<exists>u1. bufio_Flush uw bu = (((fst bu)\<lparr>buf := []\<rparr>, u1), None) \<and> C u1
           \<and> cont u1 = cont (snd bu) @ buf (fst bu)"
proof (cases "buf (fst bu) = []")
  case True
  then have "bufio_Flush uw bu = (bu, None)" using ne by (simp add: bufio_Flush_empty)
  moreover have "(fst bu)\<lparr>buf := []\<rparr> = fst bu" using True by simp
  ultimately show ?thesis using C True by (cases bu) auto
next
  case False
  obtain v1 where v: "uw (snd bu) (buf (fst bu)) = (v1, length (buf (fst bu)), None)" "C v1"
    "cont v1 = cont (snd bu) @ buf (fst bu)"
    using uw C by blast
  show ?thesis using bufio_Flush_write[where uw = uw, OF ne False v(1)] v(2,3) by simp
qed

lemma bufio_Write_direct_clean:
  assumes uw: "\<forall>v q. C v \<longrightarrow> (\<exists>v1. uw v q = (v1, length q, None) \<and> C v1 \<and> cont v1 = cont v @ q)"
    and C: "C (snd bu)" and ne: "werr (fst bu) = None"
  shows "\<exists>u1. bufio_Write_direct uw bu p nn = ((fst bu, u1), nn + length p, None) \<and> C u1
           \<and> cont u1 = cont (snd bu) @ p"
proof -
  obtain v1 where v: "uw (snd bu) p = (v1, length p, None)" "C v1" "cont v1 = cont (snd bu) @ p"
    using uw C by blast
  have "(fst bu)\<lparr>werr := None\<rparr> = fst bu" using ne by simp
  then show ?thesis using v by (simp add: bufio_Write_direct_def)
qed

lemma bufio_Write_clean:
  assumes uw: "\<forall>v q. C v \<longrightarrow> (\<exists>v1. uw v q = (v1, length q, None) \<and> C v1 \<and> cont v1 = cont v @ q)"
    and C: "C (snd bu)" and ne: "werr (fst bu) = None"
  shows "\<exists>b1 u1. bufio_Write uw bu p = ((b1, u1), length p, None) \<and> werr b1 = None \<and> C u1
           \<and> cont u1 @ buf b1 = cont (snd bu) @ buf (fst bu) @ p"
proof -
  let ?b = "fst bu" and ?u = "snd bu"
  consider (fits) "length p \<le> Available ?b"
    | (direct) "\<not> length p \<le> Available ?b" "buf ?b = []"
    | (fill) "\<not> length p \<le> Available ?b" "buf ?b \<noteq> []"
    by blast
  then show ?thesis
  proof cases
    case fits
    then show ?thesis using ne C by (simp add: bufio_Write_fits)
  next
    case direct
    from bufio_Write_direct_clean[where uw = uw and C = C and cont = cont, OF uw C ne, of p 0]
    show ?thesis using direct ne by (auto simp: bufio_Write_large)
  next
    case fill
    let ?n = "Available ?b"
    let ?bu0 = "(?b\<lparr>buf := buf ?b @ take ?n p\<rparr>, ?u)"
    have C0: "C (snd ?bu0)" and ne0: "werr (fst ?bu0) = None" using C ne by simp_all
    from bufio_Flush_clean[where uw = uw and C = C and cont = cont, OF uw C0 ne0]
    obtain u1 where fl: "bufio_Flush uw ?bu0 = ((?b\<lparr>buf := []\<rparr>, u1), None)" and C1: "C u1"
      and c1: "cont u1 = cont ?u @ buf ?b @ take ?n p"
      by auto
    let ?bu2 = "(?b\<lparr>buf := []\<rparr>, u1)"
    have eq: "bufio_Write uw bu p =
      (if length (drop ?n p) \<le> Available (fst ?bu2)
        then (((fst ?bu2)\<lparr>buf := buf (fst ?bu2) @ drop ?n p\<rparr>, snd ?bu2),
              ?n + length (drop ?n p), None)
      else bufio_Write_direct uw ?bu2 (drop ?n p) ?n)"
      using bufio_Write_fill[where uw = uw, OF ne fill fl] ne by simp
    have len: "?n + length (drop ?n p) = length p" using fill by simp
    show ?thesis
    proof (cases "length (drop ?n p) \<le> Available (fst ?bu2)")
      case True
      then show ?thesis using eq len C1 c1 ne
        by (simp del: length_drop)
    next
      case False
      have C2: "C (snd ?bu2)" and ne2: "werr (fst ?bu2) = None" using C1 ne by simp_all
      from bufio_Write_direct_clean[where uw = uw and C = C and cont = cont, OF uw C2 ne2, of "drop ?n p" ?n]
      obtain u2 where "bufio_Write_direct uw ?bu2 (drop ?n p) ?n = ((fst ?bu2, u2), ?n + length (drop ?n p), None)"
        "C u2" "cont u2 = cont u1 @ drop ?n p" by auto
      then show ?thesis using eq len False c1 ne
        by (simp del: length_drop)
    qed
  qed
qed

lemma bufio_WriteByte_clean:
  assumes uw: "\<forall>v q. C v \<longrightarrow> (\<exists>v1. uw v q = (v1, length q, None) \<and> C v1 \<and> cont v1 = cont v @ q)"
    and C: "C (snd bu)" and ne: "werr (fst bu) = None"
  shows "\<exists>b1 u1. bufio_WriteByte uw bu c = ((b1, u1), None) \<and> werr b1 = None \<and> C u1
           \<and> cont u1 @ buf b1 = cont (snd bu) @ buf (fst bu) @ [c]"
proof (cases "Available (fst bu) \<le> 0")
  case False
  then show ?thesis using ne C by (simp add: bufio_WriteByte_room)
next
  case True
  from bufio_Flush_clean[where uw = uw and C = C and cont = cont, OF uw C ne]
  obtain u1 where fl: "bufio_Flush uw bu = (((fst bu)\<lparr>buf := []\<rparr>, u1), None)" and C1: "C u1"
      and c1: "cont u1 = cont (snd bu) @ buf (fst bu)"
    by auto
  show ?thesis using bufio_WriteByte_full[where uw = uw, OF ne True fl] C1 c1 ne by simp
qed

lemma encodeRune_ascii: "0 \<le> r \<Longrightarrow> r < 128 \<Longrightarrow> encodeRune r = [char_of (nat r)]"
  by (simp add: encodeRune_def)

lemma bufio_WriteRune_clean:
  assumes uw: "\<forall>v q. C v \<longrightarrow> (\<exists>v1. uw v q = (v1, length q, None) \<and> C v1 \<and> cont v1 = cont v @ q)"
    and C: "C (snd bu)" and ne: "werr (fst bu) = None"
  shows "\<exists>b1 u1. bufio_WriteRune uw bu r = ((b1, u1), length (encodeRune r), None) \<and> werr b1 = None \<and> C u1
           \<and> cont u1 @ buf b1 = cont (snd bu) @ buf (fst bu) @ encodeRune r"
proof (cases "0 \<le> r \<and> r < 128")
  case True
  from bufio_WriteByte_clean[where uw = uw and C = C and cont = cont, OF uw C ne, of "char_of (nat r)"]
  obtain b1 u1 where wb: "bufio_WriteByte uw bu (char_of (nat r)) = ((b1, u1), None)" "werr b1 = None" "C u1"
    "cont u1 @ buf b1 = cont (snd bu) @ buf (fst bu) @ [char_of (nat r)]" by auto
  show ?thesis using bufio_WriteRune_ascii[where uw = uw, OF _ _ wb(1)] True wb(2-) 
    by (simp add: encodeRune_ascii)
next
  case False
  show ?thesis
  proof (cases "Available (fst bu) < 4")
    case nf: False
    then show ?thesis using ne C False by (simp add: bufio_WriteRune_room)
  next
    case True
    from bufio_Flush_clean[where uw = uw and C = C and cont = cont, OF uw C ne]
    obtain u1 where fl: "bufio_Flush uw bu = (((fst bu)\<lparr>buf := []\<rparr>, u1), None)" and C1: "C u1"
      and c1: "cont u1 = cont (snd bu) @ buf (fst bu)"
      by auto
    show ?thesis using bufio_WriteRune_full[where uw = uw, OF False ne True fl] C1 c1 ne by simp
  qed
qed

subsection \<open>A failure of the output reaches every state above it\<close>

lemma passes_refl: "passes v v x"
  by (simp add: passes_def)

lemma passes_weak: "passes a b x \<Longrightarrow> passes a b True"
  by (simp add: passes_def)

lemma passes_trans: "passes a b False \<Longrightarrow> passes b c y \<Longrightarrow> passes a c y"
  by (auto simp: passes_def)

lemma passes_trans': "passes a b x \<Longrightarrow> passes b c y \<Longrightarrow> passes a c (x \<or> y)"
  by (auto simp: passes_def)

lemma sink_Write_passes:
  "sink_Write k p = (k1, n, e) \<Longrightarrow> passes (Sink k) (Sink k1) (is_err e)"
  by (auto simp: sink_Write_def passes_def split: option.splits)

lemma depth_0: "depth v = 0 \<Longrightarrow> \<exists>k. v = Sink k"
  by (cases v) auto

lemma depth_Suc: "depth v = Suc n \<Longrightarrow> \<exists>s u. v = Enc s u \<and> depth u = n"
  by (cases v) auto

lemma passes_Enc:
  assumes "passes u u1 x" and "err s = None \<or> (u1 = u \<and> err s1 = err s)" and "x \<longrightarrow> err s1 \<noteq> None"
  shows "passes (Enc s u) (Enc s1 u1) x"
proof (cases u)
  case (Sink k)
  then obtain k1 where "u1 = Sink k1" using assms(1) depth_0[of u1] by (auto simp: passes_def)
  then show ?thesis using assms Sink by (auto simp: passes_def)
next
  case (Enc t v)
  then obtain t1 v1 where "u1 = Enc t1 v1" using assms(1) depth_Suc[of u1] by (auto simp: passes_def)
  then show ?thesis using assms Enc by (auto simp: passes_def)
qed

lemma Write_on_err: "err (fst su) \<noteq> None \<Longrightarrow> Write_on uw su p = (su, 0, err (fst su))"
  by (simp add: Write_on_def)

lemma Write_on_ok:
  "err (fst su) = None \<Longrightarrow> bufio_Write uw (w (fst su), snd su) p = (bu1, n, e) \<Longrightarrow>
   Write_on uw su p = (((fst su)\<lparr>w := fst bu1, err := e\<rparr>, snd bu1), n, e)"
  by (simp add: Write_on_def)

lemma Write_d_passes:
  "depth wr \<le> d \<Longrightarrow> Write_d d wr p = (wr1, n, e) \<Longrightarrow> passes wr wr1 (is_err e)"
proof (induction d arbitrary: wr p wr1 n e)
  case 0
  then obtain k where k: "wr = Sink k" using depth_0 by auto
  then show ?case using 0 sink_Write_passes[of k p]
    by (auto split: prod.splits)
next
  case (Suc d)
  show ?case
  proof (cases wr)
    case (Sink k)
    then show ?thesis using Suc.prems sink_Write_passes[of k p]
      by (auto split: prod.splits)
  next
    case (Enc s u)
    then have du: "depth u \<le> d" using Suc.prems by simp
    show ?thesis
    proof (cases "err s")
      case (Some x)
      then have "Write_on (Write_d d) (s, u) p = ((s, u), 0, err s)" by (simp add: Write_on_err)
      then have "wr1 = wr" using Suc.prems(2) Enc by simp
      then show ?thesis by (simp add: passes_refl)
    next
      case None
      obtain bu1 m e1 where bw: "bufio_Write (Write_d d) (w s, u) p = (bu1, m, e1)"
        by (cases "bufio_Write (Write_d d) (w s, u) p") auto
      define R where "R = (\<lambda>v v1 x. depth v \<le> d \<longrightarrow> passes v v1 x)"
      have step: "\<forall>v q v1 n e. Write_d d v q = (v1, n, e) \<longrightarrow> R v v1 (is_err e)"
        using Suc.IH by (auto simp: R_def)
      have refl: "\<forall>v. R v v False" by (simp add: R_def passes_refl)
      have weak: "\<forall>a b. R a b False \<longrightarrow> R a b True" using passes_weak by (auto simp: R_def)
      have trans: "\<forall>a b c y. R a b False \<longrightarrow> R b c y \<longrightarrow> R a c y"
        unfolding R_def by (metis passes_trans passes_def)
      note B = bufio_Write_rel[where uw = "Write_d d" and R = R, OF step refl weak trans bw]
      have pu: "passes u (snd bu1) (is_err e1)" using B(1) du by (simp add: R_def)
      have "Write_on (Write_d d) (s, u) p = ((s\<lparr>w := fst bu1, err := e1\<rparr>, snd bu1), m, e1)"
        using Write_on_ok[where uw = "Write_d d" and su = "(s, u)", OF _ _] None bw by simp
      then have eq: "wr1 = Enc (s\<lparr>w := fst bu1, err := e1\<rparr>) (snd bu1)" "e = e1"
        using Suc.prems(2) Enc by auto
      show ?thesis unfolding eq Enc
        by (rule passes_Enc[OF pu]) (auto simp: None is_err_def)
    qed
  qed
qed

lemma wWrite_passes: "wWrite wr p = (wr1, n, e) \<Longrightarrow> passes wr wr1 (is_err e)"
  unfolding wWrite_def by (rule Write_d_passes[of wr "depth wr"]) auto

lemma same_tbl_refl [simp]: "same_tbl s s"
  by (simp add: same_tbl_def)

lemma same_tbl_upd [simp]: "same_tbl s (t\<lparr>w := b, err := e\<rparr>) = same_tbl s t"
  "same_tbl (t\<lparr>w := b, err := e\<rparr>) s = same_tbl t s"
  by (simp_all add: same_tbl_def)

lemma same_tbl_trans: "same_tbl a b \<Longrightarrow> same_tbl b c \<Longrightarrow> same_tbl a c"
  by (simp add: same_tbl_def)

lemma same_tbl_sym: "same_tbl a b \<Longrightarrow> same_tbl b a"
  by (simp add: same_tbl_def)

lemma mpassesI:
  assumes "err (fst c) = None" "passes (snd c) (snd c1) (is_err e)"
    "fst c1 = (fst c)\<lparr>w := b, err := e\<rparr>"
  shows "mpasses c c1 e"
proof -
  have "passes (Enc (fst c) (snd c)) (Enc (fst c1) (snd c1)) (is_err e)"
    by (rule passes_Enc[OF assms(2)]) (auto simp: assms is_err_def)
  then show ?thesis using assms by (auto simp: mpasses_def writer_of_def)
qed

lemma mpasses_noop: "err (fst c) \<noteq> None \<Longrightarrow> mpasses c c (err (fst c))"
  by (auto simp: mpasses_def passes_refl)

lemma wWrite_step: "\<forall>v q v1 n e. wWrite v q = (v1, n, e) \<longrightarrow> passes v v1 (is_err e)"
  using wWrite_passes by blast
lemma passes_refl_all: "\<forall>v. passes v v False" by (simp add: passes_refl)
lemma passes_weak_all: "\<forall>a b. passes a b False \<longrightarrow> passes a b True" using passes_weak by blast
lemma passes_trans_all: "\<forall>a b c y. passes a b False \<longrightarrow> passes b c y \<longrightarrow> passes a c y"
  using passes_trans by blast

lemma encodeState_Write_passes:
  assumes "encodeState_Write c p = (c1, n, e)" shows "mpasses c c1 e"
proof (cases "err (fst c)")
  case (Some x)
  then have ne: "err (fst c) \<noteq> None" by simp
  then have "c1 = c \<and> e = err (fst c)" using assms by (auto simp: encodeState_Write_def Write_on_def)
  then show ?thesis using mpasses_noop[OF ne] by simp
next
  case None
  obtain bu1 m e1 where bw: "bufio_Write wWrite (w (fst c), snd c) p = (bu1, m, e1)"
    by (cases "bufio_Write wWrite (w (fst c), snd c) p") auto
  note B = bufio_Write_rel[where R = passes, OF wWrite_step passes_refl_all passes_weak_all passes_trans_all bw]
  have "c1 = ((fst c)\<lparr>w := fst bu1, err := e1\<rparr>, snd bu1)" "e = e1"
    using assms None bw by (auto simp: encodeState_Write_def Write_on_def)
  then show ?thesis using B(1) None by (intro mpassesI[where b = "fst bu1"]) auto
qed

lemma encodeState_WriteString_passes:
  assumes "encodeState_WriteString c p = (c1, n, e)" shows "mpasses c c1 e"
proof (cases "err (fst c)")
  case (Some x)
  then have ne: "err (fst c) \<noteq> None" by simp
  then have "c1 = c \<and> e = err (fst c)" using assms by (auto simp: encodeState_WriteString_def)
  then show ?thesis using mpasses_noop[OF ne] by simp
next
  case None
  obtain bu1 m e1 where bw: "bufio_Write wWrite (w (fst c), snd c) p = (bu1, m, e1)"
    by (cases "bufio_Write wWrite (w (fst c), snd c) p") auto
  note B = bufio_Write_rel[where R = passes, OF wWrite_step passes_refl_all passes_weak_all passes_trans_all bw]
  have "c1 = ((fst c)\<lparr>w := fst bu1, err := e1\<rparr>, snd bu1)" "e = e1"
    using assms None bw by (auto simp: encodeState_WriteString_def bufio_WriteString_def)
  then show ?thesis using B(1) None by (intro mpassesI[where b = "fst bu1"]) auto
qed

lemma encodeState_WriteByte_passes:
  assumes "encodeState_WriteByte c b = (c1, e)" shows "mpasses c c1 e"
proof (cases "err (fst c)")
  case (Some x)
  then have ne: "err (fst c) \<noteq> None" by simp
  then have "c1 = c \<and> e = err (fst c)" using assms by (auto simp: encodeState_WriteByte_def)
  then show ?thesis using mpasses_noop[OF ne] by simp
next
  case None
  obtain bu1 e1 where bw: "bufio_WriteByte wWrite (w (fst c), snd c) b = (bu1, e1)"
    by (cases "bufio_WriteByte wWrite (w (fst c), snd c) b") auto
  note B = bufio_WriteByte_rel[where R = passes, OF wWrite_step passes_refl_all passes_weak_all bw]
  have "c1 = ((fst c)\<lparr>w := fst bu1, err := e1\<rparr>, snd bu1)" "e = e1"
    using assms None bw by (auto simp: encodeState_WriteByte_def)
  then show ?thesis using B(1) None by (intro mpassesI[where b = "fst bu1"]) auto
qed

lemma encodeState_WriteRune_passes:
  assumes "encodeState_WriteRune c r = (c1, n, e)" shows "mpasses c c1 e"
proof (cases "err (fst c)")
  case (Some x)
  then have ne: "err (fst c) \<noteq> None" by simp
  then have "c1 = c \<and> e = err (fst c)" using assms by (auto simp: encodeState_WriteRune_def)
  then show ?thesis using mpasses_noop[OF ne] by simp
next
  case None
  obtain bu1 m e1 where bw: "bufio_WriteRune wWrite (w (fst c), snd c) r = (bu1, m, e1)"
    by (cases "bufio_WriteRune wWrite (w (fst c), snd c) r") auto
  note B = bufio_WriteRune_rel[where R = passes, OF wWrite_step passes_refl_all passes_weak_all bw]
  have "c1 = ((fst c)\<lparr>w := fst bu1, err := e1\<rparr>, snd bu1)" "e = e1"
    using assms None bw by (auto simp: encodeState_WriteRune_def)
  then show ?thesis using B(1) None by (intro mpassesI[where b = "fst bu1"]) auto
qed

lemma encodeState_Close_passes:
  assumes "encodeState_Close c = (c1, e)" shows "mpasses c c1 e"
proof (cases "err (fst c)")
  case (Some x)
  then have ne: "err (fst c) \<noteq> None" by simp
  then have "c1 = c \<and> e = err (fst c)" using assms by (auto simp: encodeState_Close_def)
  then show ?thesis using mpasses_noop[OF ne] by simp
next
  case None
  obtain bu1 e1 where bw: "bufio_Flush wWrite (w (fst c), snd c) = (bu1, e1)"
    by (cases "bufio_Flush wWrite (w (fst c), snd c)") auto
  note B = bufio_Flush_rel[where R = passes, OF wWrite_step passes_refl_all passes_weak_all bw]
  have "c1 = ((fst c)\<lparr>w := fst bu1, err := e1\<rparr>, snd bu1)" "e = e1"
    using assms None bw by (auto simp: encodeState_Close_def)
  then show ?thesis using B(1) None by (intro mpassesI[where b = "fst bu1"]) auto
qed

subsection \<open>Writing when nothing fails\<close>

lemma grows_refl: "clean wr \<Longrightarrow> grows wr [] wr"
  by (simp add: grows_def)

lemma grows_trans: "grows a x b \<Longrightarrow> grows b y c \<Longrightarrow> grows a (x @ y) c"
  by (simp add: grows_def)

lemma grows_clean: "grows a x b \<Longrightarrow> clean b"
  by (simp add: grows_def)

lemma sink_Write_clean:
  "clean (Sink k) \<Longrightarrow> \<exists>k1. sink_Write k p = (k1, length p, None) \<and> grows (Sink k) p (Sink k1)"
  by (simp add: sink_Write_def grows_def)

lemma Write_d_clean:
  "clean wr \<Longrightarrow> depth wr \<le> d \<Longrightarrow> \<exists>wr1. Write_d d wr p = (wr1, length p, None) \<and> grows wr p wr1"
proof (induction d arbitrary: wr p)
  case 0
  then obtain k where k: "wr = Sink k" using depth_0 by auto
  then show ?case using 0 sink_Write_clean[of k p] by auto
next
  case (Suc d)
  show ?case
  proof (cases wr)
    case (Sink k)
    then show ?thesis using Suc.prems sink_Write_clean[of k p] by auto
  next
    case (Enc s u)
    then have du: "depth u \<le> d" and cl: "clean u" "err s = None" "werr (w s) = None"
      using Suc.prems by simp_all
    define C where "C = (\<lambda>v. clean v \<and> depth v = depth u \<and> tables v = tables u)"
    have uw: "\<forall>v q. C v \<longrightarrow> (\<exists>v1. Write_d d v q = (v1, length q, None) \<and> C v1 \<and> contents v1 = contents v @ q)"
    proof (intro allI impI)
      fix v q assume "C v"
      then have "clean v" "depth v \<le> d" using du by (simp_all add: C_def)
      from Suc.IH[OF this, of q] show "\<exists>v1. Write_d d v q = (v1, length q, None) \<and> C v1 \<and> contents v1 = contents v @ q"
        using \<open>C v\<close> by (auto simp: C_def grows_def)
    qed
    have "C (snd (w s, u))" "werr (fst (w s, u)) = None" using cl by (simp_all add: C_def)
    from bufio_Write_clean[where uw = "Write_d d" and C = C and cont = contents, OF uw this, of p]
    obtain b1 u1 where bw: "bufio_Write (Write_d d) (w s, u) p = ((b1, u1), length p, None)"
      "werr b1 = None" "C u1" "contents u1 @ buf b1 = contents u @ buf (w s) @ p" by auto
    have "Write_on (Write_d d) (s, u) p = ((s\<lparr>w := b1, err := None\<rparr>, u1), length p, None)"
      using Write_on_ok[where uw = "Write_d d" and su = "(s, u)"] cl bw(1) by simp
    then show ?thesis using Enc bw(2-) cl by (simp add: grows_def C_def)
  qed
qed

lemma wWrite_clean:
  "clean wr \<Longrightarrow> \<exists>wr1. wWrite wr p = (wr1, length p, None) \<and> grows wr p wr1"
  unfolding wWrite_def by (rule Write_d_clean) auto

text \<open>the methods on a clean stack\<close>

lemma cgrows_trans: "cgrows a x b \<Longrightarrow> cgrows b y c \<Longrightarrow> cgrows a (x @ y) c"
  unfolding cgrows_def by (rule grows_trans)

lemma wWrite_clean_all:
  "\<forall>v q. (clean v \<and> depth v = d \<and> tables v = t) \<longrightarrow>
      (\<exists>v1. wWrite v q = (v1, length q, None) \<and> (clean v1 \<and> depth v1 = d \<and> tables v1 = t) \<and> contents v1 = contents v @ q)"
  using wWrite_clean by (fastforce simp: grows_def)

lemma cgrowsI:
  assumes "clean (writer_of c)" "werr b1 = None" "clean u1 \<and> depth u1 = depth (snd c) \<and> tables u1 = tables (snd c)"
    "contents u1 @ buf b1 = contents (snd c) @ buf (w (fst c)) @ tx"
  shows "cgrows c tx ((fst c)\<lparr>w := b1, err := None\<rparr>, u1)"
  using assms by (simp add: cgrows_def grows_def writer_of_def)

lemma encodeState_Write_clean:
  assumes "clean (writer_of c)"
  shows "\<exists>c1. encodeState_Write c p = (c1, length p, None) \<and> cgrows c p c1"
proof -
  have cl: "err (fst c) = None" "werr (fst (w (fst c), snd c)) = None"
    "clean (snd (w (fst c), snd c)) \<and> depth (snd (w (fst c), snd c)) = depth (snd c) \<and> tables (snd (w (fst c), snd c)) = tables (snd c)"
    using assms by (simp_all add: writer_of_def)
  from bufio_Write_clean[where uw = wWrite and cont = contents, OF wWrite_clean_all cl(3,2), of p]
  obtain b1 u1 where bw: "bufio_Write wWrite (w (fst c), snd c) p = ((b1, u1), length p, None)"
      "werr b1 = None" "clean u1 \<and> depth u1 = depth (snd c) \<and> tables u1 = tables (snd c)"
      "contents u1 @ buf b1 = contents (snd c) @ buf (w (fst c)) @ p" by auto
  have "encodeState_Write c p = (((fst c)\<lparr>w := b1, err := None\<rparr>, u1), length p, None)"
    using cl(1) bw(1) by (simp add: encodeState_Write_def Write_on_def)
  then show ?thesis using cgrowsI[OF assms bw(2,3,4)] by simp
qed

lemma encodeState_WriteString_clean:
  assumes "clean (writer_of c)"
  shows "\<exists>c1. encodeState_WriteString c p = (c1, length p, None) \<and> cgrows c p c1"
proof -
  have cl: "err (fst c) = None" "werr (fst (w (fst c), snd c)) = None"
    "clean (snd (w (fst c), snd c)) \<and> depth (snd (w (fst c), snd c)) = depth (snd c) \<and> tables (snd (w (fst c), snd c)) = tables (snd c)"
    using assms by (simp_all add: writer_of_def)
  from bufio_Write_clean[where uw = wWrite and cont = contents, OF wWrite_clean_all cl(3,2), of p]
  obtain b1 u1 where bw: "bufio_Write wWrite (w (fst c), snd c) p = ((b1, u1), length p, None)"
      "werr b1 = None" "clean u1 \<and> depth u1 = depth (snd c) \<and> tables u1 = tables (snd c)"
      "contents u1 @ buf b1 = contents (snd c) @ buf (w (fst c)) @ p" by auto
  have "encodeState_WriteString c p = (((fst c)\<lparr>w := b1, err := None\<rparr>, u1), length p, None)"
    using cl(1) bw(1) by (simp add: encodeState_WriteString_def bufio_WriteString_def)
  then show ?thesis using cgrowsI[OF assms bw(2,3,4)] by simp
qed

lemma encodeState_WriteByte_clean:
  assumes "clean (writer_of c)"
  shows "\<exists>c1. encodeState_WriteByte c b = (c1, None) \<and> cgrows c [b] c1"
proof -
  have cl: "err (fst c) = None" "werr (fst (w (fst c), snd c)) = None"
    "clean (snd (w (fst c), snd c)) \<and> depth (snd (w (fst c), snd c)) = depth (snd c) \<and> tables (snd (w (fst c), snd c)) = tables (snd c)"
    using assms by (simp_all add: writer_of_def)
  from bufio_WriteByte_clean[where uw = wWrite and cont = contents, OF wWrite_clean_all cl(3,2), of b]
  obtain b1 u1 where bw: "bufio_WriteByte wWrite (w (fst c), snd c) b = ((b1, u1), None)"
      "werr b1 = None" "clean u1 \<and> depth u1 = depth (snd c) \<and> tables u1 = tables (snd c)"
      "contents u1 @ buf b1 = contents (snd c) @ buf (w (fst c)) @ [b]" by auto
  have "encodeState_WriteByte c b = (((fst c)\<lparr>w := b1, err := None\<rparr>, u1), None)"
    using cl(1) bw(1) by (simp add: encodeState_WriteByte_def)
  then show ?thesis using cgrowsI[OF assms bw(2,3,4)] by simp
qed

lemma encodeState_WriteRune_clean:
  assumes "clean (writer_of c)"
  shows "\<exists>c1. encodeState_WriteRune c r = (c1, length (encodeRune r), None) \<and> cgrows c (encodeRune r) c1"
proof -
  have cl: "err (fst c) = None" "werr (fst (w (fst c), snd c)) = None"
    "clean (snd (w (fst c), snd c)) \<and> depth (snd (w (fst c), snd c)) = depth (snd c) \<and> tables (snd (w (fst c), snd c)) = tables (snd c)"
    using assms by (simp_all add: writer_of_def)
  from bufio_WriteRune_clean[where uw = wWrite and cont = contents, OF wWrite_clean_all cl(3,2), of r]
  obtain b1 u1 where bw: "bufio_WriteRune wWrite (w (fst c), snd c) r = ((b1, u1), length (encodeRune r), None)"
      "werr b1 = None" "clean u1 \<and> depth u1 = depth (snd c) \<and> tables u1 = tables (snd c)"
      "contents u1 @ buf b1 = contents (snd c) @ buf (w (fst c)) @ encodeRune r" by auto
  have "encodeState_WriteRune c r = (((fst c)\<lparr>w := b1, err := None\<rparr>, u1), length (encodeRune r), None)"
    using cl(1) bw(1) by (simp add: encodeState_WriteRune_def)
  then show ?thesis using cgrowsI[OF assms bw(2,3,4)] by simp
qed

lemma encodeState_Close_clean:
  assumes "clean (writer_of c)"
  shows "\<exists>c1. encodeState_Close c = (c1, None) \<and> grows (snd c) (buf (w (fst c))) (snd c1)
           \<and> err (fst c1) = None"
proof -
  have cl: "err (fst c) = None" "werr (fst (w (fst c), snd c)) = None"
    "clean (snd (w (fst c), snd c)) \<and> depth (snd (w (fst c), snd c)) = depth (snd c) \<and> tables (snd (w (fst c), snd c)) = tables (snd c)"
    using assms by (simp_all add: writer_of_def)
  from bufio_Flush_clean[where uw = wWrite and cont = contents, OF wWrite_clean_all cl(3,2)]
  obtain u1 where bw: "bufio_Flush wWrite (w (fst c), snd c) = (((w (fst c))\<lparr>buf := []\<rparr>, u1), None)"
      "clean u1 \<and> depth u1 = depth (snd c) \<and> tables u1 = tables (snd c)"
      "contents u1 = contents (snd c) @ buf (w (fst c))" by auto
  have "encodeState_Close c = (((fst c)\<lparr>w := (w (fst c))\<lparr>buf := []\<rparr>, err := None\<rparr>, u1), None)"
    using cl(1) bw(1) by (simp add: encodeState_Close_def Let_def)
  then show ?thesis using bw(2,3) by (simp add: grows_def)
qed

subsection \<open>The \<open>encode\<close> methods when nothing fails\<close>

lemma cgrows_D:
  "cgrows c tx c1 \<Longrightarrow> clean (writer_of c1) \<and> wgrows (writer_of c) tx (writer_of c1) \<and> same_tbl (fst c) (fst c1)"
  by (auto simp: cgrows_def grows_def wgrows_def writer_of_def same_tbl_def)

lemma cgrows_refl: "clean (writer_of c) \<Longrightarrow> cgrows c [] c"
  by (simp add: cgrows_def grows_refl)

lemma cgrows_clean: "cgrows c tx c1 \<Longrightarrow> clean (writer_of c1)"
  by (simp add: cgrows_def grows_def)

lemma fmt_Fprint_clean:
  assumes "clean (writer_of c)"
  shows "\<exists>c1. fmt_Fprint c str = (c1, None) \<and> cgrows c str c1"
  using encodeState_Write_clean[OF assms, of str] by (auto simp: fmt_Fprint_def)

lemma write_pending_clean:
  assumes "clean (writer_of c)"
  shows "\<exists>c1. write_pending c pending = (c1, None) \<and> cgrows c pending c1"
proof (cases "pending = []")
  case True
  then show ?thesis using assms by (simp add: write_pending_def cgrows_refl)
next
  case False
  then show ?thesis using encodeState_WriteString_clean[OF assms, of pending]
    by (auto simp: write_pending_def)
qed

lemma Replacer_WriteString_clean:
  "clean (writer_of c) \<Longrightarrow>
   \<exists>c1. Replacer_WriteString c pending str = (c1, None) \<and> cgrows c (pending @ escaped str) c1"
proof (induction str arbitrary: c pending)
  case Nil
  then show ?case using write_pending_clean[of c pending] by simp
next
  case (Cons b rest)
  show ?case
  proof (cases "replacement b")
    case None
    then show ?thesis using Cons.IH[OF Cons.prems, of "pending @ [b]"] by simp
  next
    case (Some new)
    from write_pending_clean[OF Cons.prems, of pending]
    obtain c1 where 1: "write_pending c pending = (c1, None)" "cgrows c pending c1" by auto
    from encodeState_Write_clean[OF cgrows_clean[OF 1(2)], of new]
    obtain c2 where 2: "encodeState_Write c1 new = (c2, length new, None)" "cgrows c1 new c2" by auto
    from Cons.IH[OF cgrows_clean[OF 2(2)], of "[]"]
    obtain c3 where 3: "Replacer_WriteString c2 [] rest = (c3, None)" "cgrows c2 (escaped rest) c3" by auto
    have "cgrows c (pending @ new @ escaped rest) c3"
      using cgrows_trans[OF 1(2) cgrows_trans[OF 2(2) 3(2)]] .
    then show ?thesis using Some 1 2 3 by simp
  qed
qed

lemma LiteralString_encode_clean:
  assumes "clean (writer_of c)"
  shows "\<exists>c1. LiteralString_encode str c = (c1, None) \<and> cgrows c (''('' @ escaped str @ '')'') c1"
proof -
  from encodeState_WriteByte_clean[OF assms, of "CHR ''(''"]
  obtain c1 where 1: "encodeState_WriteByte c CHR ''('' = (c1, None)" "cgrows c ''('' c1" by auto
  from Replacer_WriteString_clean[OF cgrows_clean[OF 1(2)], of "[]" str]
  obtain c2 where 2: "Replacer_WriteString c1 [] str = (c2, None)" "cgrows c1 (escaped str) c2" by auto
  from encodeState_WriteByte_clean[OF cgrows_clean[OF 2(2)], of "CHR '')''"]
  obtain c3 where 3: "encodeState_WriteByte c2 CHR '')'' = (c3, None)" "cgrows c2 '')'' c3" by auto
  have "cgrows c (''('' @ escaped str @ '')'') c3"
    using cgrows_trans[OF 1(2) cgrows_trans[OF 2(2) 3(2)]] .
  then show ?thesis using 1 2 3 by (simp add: LiteralString_encode_def)
qed

lemma Name_loop_clean:
  "clean (writer_of c) \<Longrightarrow> \<exists>c1. Name_loop rs c = (c1, None) \<and> cgrows c (Name_text rs) c1"
proof (induction rs arbitrary: c)
  case Nil
  then show ?case by (simp add: cgrows_refl)
next
  case (Cons r rs)
  consider (hex) "r < 33 \<or> r > 126" | (hash) "\<not> (r < 33 \<or> r > 126)" "r = 35"
    | (plain) "\<not> (r < 33 \<or> r > 126)" "r \<noteq> 35" by blast
  then show ?case
  proof cases
    case hex
    from fmt_Fprint_clean[OF Cons.prems, of "''#'' @ fmt_X r"]
    obtain c1 where 1: "fmt_Fprint c (''#'' @ fmt_X r) = (c1, None)" "cgrows c (''#'' @ fmt_X r) c1" by auto
    from Cons.IH[OF cgrows_clean[OF 1(2)]]
    obtain c2 where 2: "Name_loop rs c1 = (c2, None)" "cgrows c1 (Name_text rs) c2" by auto
    show ?thesis using hex 1 2 cgrows_trans[OF 1(2) 2(2)] by auto
  next
    case hash
    from encodeState_WriteString_clean[OF Cons.prems, of "''#23''"]
    obtain c1 where 1: "encodeState_WriteString c ''#23'' = (c1, length ''#23'', None)" "cgrows c ''#23'' c1" by auto
    from Cons.IH[OF cgrows_clean[OF 1(2)]]
    obtain c2 where 2: "Name_loop rs c1 = (c2, None)" "cgrows c1 (Name_text rs) c2" by auto
    show ?thesis using hash 1 2 cgrows_trans[OF 1(2) 2(2)] by auto
  next
    case plain
    from encodeState_WriteRune_clean[OF Cons.prems, of r]
    obtain c1 where 1: "encodeState_WriteRune c r = (c1, length (encodeRune r), None)" "cgrows c (encodeRune r) c1" by auto
    from Cons.IH[OF cgrows_clean[OF 1(2)]]
    obtain c2 where 2: "Name_loop rs c1 = (c2, None)" "cgrows c1 (Name_text rs) c2" by auto
    show ?thesis using plain 1 2 cgrows_trans[OF 1(2) 2(2)] by auto
  qed
qed

lemma Name_encode_clean:
  assumes "clean (writer_of c)"
  shows "\<exists>c1. Name_encode n c = (c1, None) \<and> cgrows c (''/'' @ Name_text (runes n)) c1"
proof -
  from encodeState_WriteByte_clean[OF assms, of "CHR ''/''"]
  obtain c1 where 1: "encodeState_WriteByte c CHR ''/'' = (c1, None)" "cgrows c ''/'' c1" by auto
  from Name_loop_clean[OF cgrows_clean[OF 1(2)], of "runes n"]
  obtain c2 where 2: "Name_loop (runes n) c1 = (c2, None)" "cgrows c1 (Name_text (runes n)) c2" by auto
  show ?thesis using 1 2 cgrows_trans[OF 1(2) 2(2)] by (simp add: Name_encode_def)
qed

lemma io_Copy_clean:
  "clean (writer_of c) \<Longrightarrow>
   \<exists>c1. io_Copy c src written = (c1, written + length src, None) \<and> cgrows c src c1"
proof (induction c src written rule: io_Copy.induct)
  case (1 c src written)
  show ?case
  proof (cases "src = []")
    case True
    then show ?thesis using "1.prems" by (simp add: io_Copy.simps cgrows_refl)
  next
    case False
    from encodeState_Write_clean[OF "1.prems", of "take copyBufSize src"]
    obtain c1 where w: "encodeState_Write c (take copyBufSize src) = (c1, length (take copyBufSize src), None)"
      "cgrows c (take copyBufSize src) c1" by auto
    have "\<exists>c2. io_Copy c1 (drop copyBufSize src) (written + length (take copyBufSize src))
        = (c2, written + length (take copyBufSize src) + length (drop copyBufSize src), None)
        \<and> cgrows c1 (drop copyBufSize src) c2"
      using "1.IH"[of "(c1, length (take copyBufSize src), None)" c1 "(length (take copyBufSize src), None)"
          "length (take copyBufSize src)" None] False w(1) cgrows_clean[OF w(2)]
      by simp
    then obtain c2 where r: "io_Copy c1 (drop copyBufSize src) (written + length (take copyBufSize src))
        = (c2, written + length (take copyBufSize src) + length (drop copyBufSize src), None)"
      "cgrows c1 (drop copyBufSize src) c2" by auto
    have "cgrows c src c2" using cgrows_trans[OF w(2) r(2)] by simp
    moreover have "length (take copyBufSize src) + length (drop copyBufSize src) = length src"
      by (metis append_take_drop_id length_append)
    ultimately show ?thesis using False w r
      by (subst io_Copy.simps) (simp del: length_take length_drop add: add.assoc)
  qed
qed

lemma io_CopyN_clean:
  assumes "clean (writer_of c)"
  shows "\<exists>c1. io_CopyN c src n = (c1, length (take (nat n) src),
               if int (length (take (nat n) src)) < n then Some EOF else None)
           \<and> cgrows c (take (nat n) src) c1"
proof -
  from io_Copy_clean[OF assms, of "take (nat n) src" 0]
  obtain c1 where "io_Copy c (take (nat n) src) 0 = (c1, length (take (nat n) src), None)"
    "cgrows c (take (nat n) src) c1" by auto
  then show ?thesis by (cases c1) (auto simp: io_CopyN_def)
qed

declare EncodeObject.simps [simp del] renderObject.simps [simp del]

lemma objName_same_tbl:
  "same_tbl s t \<Longrightarrow> snd (objName s n) = snd (objName t n)
     \<and> same_tbl (fst (objName s n)) (fst (objName t n))"
  by (auto simp: objName_def same_tbl_def Let_def split: option.splits)

lemma objName_w_err [simp]: "w (fst (objName s n)) = w s" "err (fst (objName s n)) = err s"
  by (auto simp: objName_def Let_def split: option.splits)

lemma wgrows_trans: "wgrows a x b \<Longrightarrow> wgrows b y c \<Longrightarrow> wgrows a (x @ y) c"
  by (simp add: wgrows_def)

lemma cgrows_wgrows: "cgrows c t c1 \<Longrightarrow> wgrows (writer_of c) t (writer_of c1)"
  by (simp add: cgrows_def grows_def wgrows_def)

lemma cgrows_same_tbl: "cgrows c t c1 \<Longrightarrow> same_tbl (fst c) (fst c1)"
  by (simp add: cgrows_def grows_def same_tbl_def writer_of_def)

lemma wgrows_clean: "wgrows a x b \<Longrightarrow> clean b"
  by (simp add: wgrows_def)

lemma wgrows_objName:
  "clean (writer_of c) \<Longrightarrow> wgrows (writer_of c) [] (writer_of (fst (objName (fst c) n), snd c))"
  by (simp add: wgrows_def writer_of_def)

lemma grows_ctx_of:
  assumes "grows (writer_of c) t wr1"
  shows "cgrows c t (ctx_of wr1 c)"
proof -
  have "depth wr1 = Suc (depth (snd c))" using assms by (simp add: grows_def writer_of_def)
  then obtain s u where "wr1 = Enc s u" using depth_Suc by blast
  then show ?thesis using assms by (simp add: cgrows_def writer_of_def)
qed

lemma io_WriteString_clean:
  assumes "clean wr"
  shows "\<exists>wr1. io_WriteString wr str = (wr1, length str, None) \<and> grows wr str wr1"
proof (cases wr)
  case (Sink k)
  then show ?thesis using assms sink_Write_clean[of k str] by (auto simp: io_WriteString_def)
next
  case (Enc s u)
  then have "clean (writer_of (s, u))" using assms by (simp add: writer_of_def)
  from encodeState_WriteString_clean[OF this, of str]
  obtain c1 where "encodeState_WriteString (s, u) str = (c1, length str, None)" "cgrows (s, u) str c1"
    by auto
  then show ?thesis using Enc by (auto simp: io_WriteString_def cgrows_def writer_of_def)
qed

lemma Reference_encode_clean:
  assumes "clean (writer_of c)"
  shows "\<exists>c1. Reference_encode r c = (c1, None)
     \<and> wgrows (writer_of c) (fmt_d (snd (objName (fst c) r)) @ '' 0 R'') (writer_of c1)
     \<and> same_tbl (fst (objName (fst c) r)) (fst c1)"
proof -
  let ?s1 = "fst (objName (fst c) r)" and ?n = "snd (objName (fst c) r)"
  have 0: "wgrows (writer_of c) [] (writer_of (?s1, snd c))" by (rule wgrows_objName[OF assms])
  from fmt_Fprint_clean[OF wgrows_clean[OF 0], of "fmt_d ?n"]
  obtain c1 where 1: "Integer_encode ?n (?s1, snd c) = (c1, None)" "cgrows (?s1, snd c) (fmt_d ?n) c1"
    by (auto simp: Integer_encode_def)
  from encodeState_WriteString_clean[OF cgrows_clean[OF 1(2)], of "'' 0 R''"]
  obtain c2 where 2: "encodeState_WriteString c1 '' 0 R'' = (c2, length '' 0 R'', None)"
    "cgrows c1 '' 0 R'' c2" by auto
  have "wgrows (writer_of c) ([] @ fmt_d ?n @ '' 0 R'') (writer_of c2)"
    using wgrows_trans[OF 0 wgrows_trans[OF cgrows_wgrows[OF 1(2)] cgrows_wgrows[OF 2(2)]]] .
  moreover have "same_tbl ?s1 (fst c2)"
    using cgrows_same_tbl[OF 1(2)] cgrows_same_tbl[OF 2(2)] by (auto intro: same_tbl_trans)
  moreover have "Reference_encode r c = (c2, None)"
    using 1(1) 2(1) by (simp add: Reference_encode_def case_prod_beta Let_def)
  ultimately show ?thesis by simp
qed

lemma P_leaf:
  assumes "\<And>s. render obj s = (t, s, Returns None)"
    and "clean (writer_of c) \<Longrightarrow> \<exists>c1. encode obj c = (c1, Returns None) \<and> cgrows c t c1"
  shows "P_clean obj c"
  unfolding P_clean_def
proof (intro impI allI)
  fix s assume cl: "clean (writer_of c)" and st: "same_tbl s (fst c)"
  from assms(2)[OF cl] obtain c1 where 1: "encode obj c = (c1, Returns None)" "cgrows c t c1" by auto
  show "\<exists>c1. encode obj c = (c1, snd (snd (render obj s)))
            \<and> wgrows (writer_of c) (fst (render obj s)) (writer_of c1)
            \<and> same_tbl (fst (snd (render obj s))) (fst c1)"
    using 1 assms(1)[of s] cgrows_wgrows[OF 1(2)] same_tbl_trans[OF st cgrows_same_tbl[OF 1(2)]]
    by simp
qed

lemma Q_ctx:
  assumes "Q_clean (writer_of c) x" "clean (writer_of c)"
  obtains wr1 where "EncodeObject (writer_of c) x = (wr1, snd (renderObject x))"
    "cgrows c (fst (renderObject x)) (ctx_of wr1 c)"
  using assms grows_ctx_of unfolding Q_clean_def by blast

lemma newState_clean: "clean wr \<Longrightarrow> clean (writer_of (newState, wr))"
  by (simp add: writer_of_def newState_def bufio_NewWriter_def)

lemma P_finish:
  assumes "encode obj c = (c1, r)" "render obj s = (t, s, r)" "cgrows c t c1" "same_tbl s (fst c)"
  shows "\<exists>c1. encode obj c = (c1, snd (snd (render obj s)))
            \<and> wgrows (writer_of c) (fst (render obj s)) (writer_of c1)
            \<and> same_tbl (fst (snd (render obj s))) (fst c1)"
  using assms cgrows_wgrows[OF assms(3)] same_tbl_trans[OF assms(4) cgrows_same_tbl[OF assms(3)]]
  by simp

lemma encode_clean:
  shows "P_clean obj c" and "Q_clean wr x" and "R_clean a spacing c'" and "S_clean d c''"
proof (induction obj c and wr x and a spacing c' and d c'' rule: encode_EncodeObject_Array_loop_Dict_loop.induct)
  case (1 b c)
  show ?case
  proof (rule P_leaf[where t = "fmt_bool b"])
    assume "clean (writer_of c)"
    from fmt_Fprint_clean[OF this, of "fmt_bool b"]
    show "\<exists>c1. encode (Boolean b) c = (c1, Returns None) \<and> cgrows c (fmt_bool b) c1"
      by (auto simp: Boolean_encode_def)
  qed simp
next
  case (2 i c)
  show ?case
  proof (rule P_leaf[where t = "fmt_d i"])
    assume "clean (writer_of c)"
    from fmt_Fprint_clean[OF this, of "fmt_d i"]
    show "\<exists>c1. encode (Integer i) c = (c1, Returns None) \<and> cgrows c (fmt_d i) c1"
      by (auto simp: Integer_encode_def)
  qed simp
next
  case (3 r c)
  show ?case
  proof (rule P_leaf[where t = r])
    assume "clean (writer_of c)"
    from fmt_Fprint_clean[OF this, of r]
    show "\<exists>c1. encode (Real r) c = (c1, Returns None) \<and> cgrows c r c1"
      by (auto simp: Real_encode_def)
  qed simp
next
  case (4 str c)
  show ?case
  proof (rule P_leaf[where t = "''('' @ escaped str @ '')''"])
    assume "clean (writer_of c)"
    from LiteralString_encode_clean[OF this, of str]
    show "\<exists>c1. encode (LiteralString str) c = (c1, Returns None) \<and> cgrows c (''('' @ escaped str @ '')'') c1"
      by auto
  qed simp
next
  case (5 str c)
  show ?case
  proof (rule P_leaf[where t = "''<'' @ fmt_X_bytes str @ ''>''"])
    assume "clean (writer_of c)"
    from fmt_Fprint_clean[OF this, of "''<'' @ fmt_X_bytes str @ ''>''"]
    show "\<exists>c1. encode (HexString str) c = (c1, Returns None) \<and> cgrows c (''<'' @ fmt_X_bytes str @ ''>'') c1"
      by (auto simp: HexString_encode_def)
  qed simp
next
  case (6 n c)
  show ?case
  proof (rule P_leaf[where t = "''/'' @ Name_text (runes n)"])
    assume "clean (writer_of c)"
    from Name_encode_clean[OF this, of n]
    show "\<exists>c1. encode (Name n) c = (c1, Returns None) \<and> cgrows c (''/'' @ Name_text (runes n)) c1"
      by auto
  qed simp
next
  case (7 r c)
  show ?case unfolding P_clean_def
  proof (intro impI allI)
    fix s assume cl: "clean (writer_of c)" and st: "same_tbl s (fst c)"
    from Reference_encode_clean[OF cl, of r]
    obtain c1 where 1: "Reference_encode r c = (c1, None)"
      "wgrows (writer_of c) (fmt_d (snd (objName (fst c) r)) @ '' 0 R'') (writer_of c1)"
      "same_tbl (fst (objName (fst c) r)) (fst c1)" by auto
    note o = objName_same_tbl[OF st, of r]
    show "\<exists>c1. encode (Reference r) c = (c1, snd (snd (render (Reference r) s)))
            \<and> wgrows (writer_of c) (fst (render (Reference r) s)) (writer_of c1)
            \<and> same_tbl (fst (snd (render (Reference r) s))) (fst c1)"
      using 1 o by (auto intro: same_tbl_trans)
  qed
next
  case (8 a c)
  show ?case unfolding P_clean_def
  proof (intro impI allI)
    fix s assume cl: "clean (writer_of c)" and st: "same_tbl s (fst c)"
    from encodeState_WriteByte_clean[OF cl, of "CHR ''[''"]
    obtain c1 where 1: "encodeState_WriteByte c CHR ''['' = (c1, None)" "cgrows c ''['' c1" by auto
    have "R_clean a [] c1" using "8.IH"[of "(c1, None)" c1 None] 1 by simp
    then obtain c2 where 2: "Array_loop a [] c1 = (c2, snd (render_elems a []))"
      "cgrows c1 (fst (render_elems a [])) c2"
      using cgrows_clean[OF 1(2)] by (auto simp: R_clean_def)
    let ?t = "fst (render_elems a [])" and ?r = "snd (render_elems a [])"
    show "\<exists>c1. encode (Array a) c = (c1, snd (snd (render (Array a) s)))
            \<and> wgrows (writer_of c) (fst (render (Array a) s)) (writer_of c1)
            \<and> same_tbl (fst (snd (render (Array a) s))) (fst c1)"
    proof (cases "?r = Returns None")
      case False
      have "cgrows c (''['' @ ?t) c2" using cgrows_trans[OF 1(2) 2(2)] .
      then show ?thesis using False 1 2 st
        by (auto simp: case_prod_beta dest: cgrows_wgrows cgrows_same_tbl intro: same_tbl_trans)
    next
      case True
      from encodeState_WriteByte_clean[OF cgrows_clean[OF 2(2)], of "CHR '']''"]
      obtain c3 where 3: "encodeState_WriteByte c2 CHR '']'' = (c3, None)" "cgrows c2 '']'' c3" by auto
      have "cgrows c (''['' @ ?t @ '']'') c3" using cgrows_trans[OF 1(2) cgrows_trans[OF 2(2) 3(2)]] .
      then show ?thesis using True 1 2 3 st
        by (auto simp: case_prod_beta dest: cgrows_wgrows cgrows_same_tbl intro: same_tbl_trans)
    qed
  qed
next
  case (9 d c)
  show ?case unfolding P_clean_def
  proof (intro impI allI)
    fix s assume cl: "clean (writer_of c)" and st: "same_tbl s (fst c)"
    from encodeState_WriteString_clean[OF cl, of "''<<''"]
    obtain c1 where 1: "encodeState_WriteString c ''<<'' = (c1, length ''<<'', None)" "cgrows c ''<<'' c1" by auto
    have "S_clean d c1" using "9.IH"[of "(c1, length ''<<'', None)" c1 "(length ''<<'', None)" "length ''<<''" None] 1 by simp
    then obtain c2 where 2: "Dict_loop d c1 = (c2, snd (render_entries d))"
      "cgrows c1 (fst (render_entries d)) c2"
      using cgrows_clean[OF 1(2)] by (auto simp: S_clean_def)
    let ?t = "fst (render_entries d)" and ?r = "snd (render_entries d)"
    show "\<exists>c1. encode (Dict d) c = (c1, snd (snd (render (Dict d) s)))
            \<and> wgrows (writer_of c) (fst (render (Dict d) s)) (writer_of c1)
            \<and> same_tbl (fst (snd (render (Dict d) s))) (fst c1)"
    proof (cases "?r = Returns None")
      case False
      have "cgrows c (''<<'' @ ?t) c2" using cgrows_trans[OF 1(2) 2(2)] .
      then show ?thesis using False 1 2 st
        by (auto simp: case_prod_beta dest: cgrows_wgrows cgrows_same_tbl intro: same_tbl_trans)
    next
      case True
      from encodeState_WriteString_clean[OF cgrows_clean[OF 2(2)], of "newline @ ''>>''"]
      obtain c3 where 3: "encodeState_WriteString c2 (newline @ ''>>'') = (c3, length (newline @ ''>>''), None)"
        "cgrows c2 (newline @ ''>>'') c3" by auto
      have "cgrows c (''<<'' @ ?t @ newline @ ''>>'') c3" using cgrows_trans[OF 1(2) cgrows_trans[OF 2(2) 3(2)]] .
      then show ?thesis using True 1 2 3 st
        by (auto simp: case_prod_beta dest: cgrows_wgrows cgrows_same_tbl intro: same_tbl_trans)
    qed
  qed
next
  case (10 n data c)
  let ?D = "Some (Dict [(''Length'', Some (Integer n))])"
  show ?case unfolding P_clean_def
  proof (intro impI allI)
    fix s assume cl: "clean (writer_of c)" and st: "same_tbl s (fst c)"
    from Q_ctx[OF "10.IH" cl]
    obtain wr1 where 1: "EncodeObject (writer_of c) ?D = (wr1, snd (renderObject ?D))"
      "cgrows c (fst (renderObject ?D)) (ctx_of wr1 c)" by blast
    let ?t = "fst (renderObject ?D)" and ?r = "snd (renderObject ?D)" and ?c1 = "ctx_of wr1 c"
    let ?goal = "\<exists>c1. encode (Stream n data) c = (c1, snd (snd (render (Stream n data) s)))
            \<and> wgrows (writer_of c) (fst (render (Stream n data) s)) (writer_of c1)
            \<and> same_tbl (fst (snd (render (Stream n data) s))) (fst c1)"
    show ?goal
    proof (cases "?r = Returns None")
      case False
      have "encode (Stream n data) c = (?c1, ?r)" using False 1(1)
        by (simp add: case_prod_beta Let_def del: EncodeObject.simps)
      moreover have "render (Stream n data) s = (?t, s, ?r)" using False
        by (simp add: case_prod_beta Let_def del: renderObject.simps)
      ultimately show ?thesis using 1(2) st by (rule P_finish)
    next
      case True
      let ?m1 = "newline @ ''stream'' @ newline" and ?m2 = "newline @ ''endstream'' @ newline"
      from encodeState_WriteString_clean[OF cgrows_clean[OF 1(2)], of ?m1]
      obtain c2 where 2: "encodeState_WriteString ?c1 ?m1 = (c2, length ?m1, None)" "cgrows ?c1 ?m1 c2" by auto
      have g2: "cgrows c (?t @ ?m1) c2" using cgrows_trans[OF 1(2) 2(2)] .
      show ?thesis
      proof (cases data)
        case None
        show ?thesis
        proof (cases "0 < n")
          case pos: True
          have "encode (Stream n data) c = (c2, Panics)" using True None pos 1(1) 2(1)
            by (simp add: case_prod_beta Let_def del: EncodeObject.simps)
          moreover have "render (Stream n data) s = (?t @ ?m1, s, Panics)" using True None pos
            by (simp add: case_prod_beta Let_def del: renderObject.simps)
          ultimately show ?thesis using g2 st by (rule P_finish)
        next
          case npos: False
          from encodeState_WriteString_clean[OF cgrows_clean[OF 2(2)], of ?m2]
          obtain c4 where 4: "encodeState_WriteString c2 ?m2 = (c4, length ?m2, None)" "cgrows c2 ?m2 c4" by auto
          have g4: "cgrows c ((?t @ ?m1) @ ?m2) c4" using cgrows_trans[OF g2 4(2)] .
          have "encode (Stream n data) c = (c4, Returns None)" using True None npos 1(1) 2(1) 4(1)
            by (simp add: case_prod_beta Let_def del: EncodeObject.simps)
          moreover have "render (Stream n data) s = ((?t @ ?m1) @ ?m2, s, Returns None)" using True None npos
            by (simp add: case_prod_beta Let_def del: renderObject.simps)
          ultimately show ?thesis using g4 st by (rule P_finish)
        qed
      next
        case (Some src)
        let ?body = "take (nat n) src"
        from io_CopyN_clean[OF cgrows_clean[OF 2(2)], of src n]
        obtain c3 where 3: "io_CopyN c2 src n = (c3, length ?body, if int (length ?body) < n then Some EOF else None)"
          "cgrows c2 ?body c3" by auto
        have g3: "cgrows c ((?t @ ?m1) @ ?body) c3" using cgrows_trans[OF g2 3(2)] .
        show ?thesis
        proof (cases "int (length ?body) < n")
          case short: True
          have "encode (Stream n data) c = (c3, Returns (Some EOF))" using True Some short 1(1) 2(1) 3(1)
            by (simp add: case_prod_beta Let_def del: EncodeObject.simps length_take)
          moreover have "render (Stream n data) s = ((?t @ ?m1) @ ?body, s, Returns (Some EOF))"
            using True Some short
            by (simp add: case_prod_beta Let_def del: renderObject.simps length_take)
          ultimately show ?thesis using g3 st by (rule P_finish)
        next
          case full: False
          from encodeState_WriteString_clean[OF cgrows_clean[OF 3(2)], of ?m2]
          obtain c4 where 4: "encodeState_WriteString c3 ?m2 = (c4, length ?m2, None)" "cgrows c3 ?m2 c4" by auto
          have g4: "cgrows c (((?t @ ?m1) @ ?body) @ ?m2) c4" using cgrows_trans[OF g3 4(2)] .
          have "encode (Stream n data) c = (c4, Returns None)" using True Some full 1(1) 2(1) 3(1) 4(1)
            by (simp add: case_prod_beta Let_def del: EncodeObject.simps length_take)
          moreover have "render (Stream n data) s = (((?t @ ?m1) @ ?body) @ ?m2, s, Returns None)"
            using True Some full
            by (simp add: case_prod_beta Let_def del: renderObject.simps length_take)
          ultimately show ?thesis using g4 st by (rule P_finish)
        qed
      qed
    qed
  qed
next
  case (11 name obj c)
  show ?case unfolding P_clean_def
  proof (intro impI allI)
    fix s assume cl: "clean (writer_of c)" and st: "same_tbl s (fst c)"
    let ?s1 = "fst (objName (fst c) name)" and ?n = "snd (objName (fst c) name)"
    let ?head = "fmt_d ?n @ '' 0 obj'' @ newline"
    note o = objName_same_tbl[OF st, of name]
    have 0: "wgrows (writer_of c) [] (writer_of (?s1, snd c))" by (rule wgrows_objName[OF cl])
    from fmt_Fprint_clean[OF wgrows_clean[OF 0], of "fmt_d ?n"]
    obtain c1 where 1: "Integer_encode ?n (?s1, snd c) = (c1, None)" "cgrows (?s1, snd c) (fmt_d ?n) c1"
      by (auto simp: Integer_encode_def)
    from encodeState_WriteString_clean[OF cgrows_clean[OF 1(2)], of "'' 0 obj'' @ newline"]
    obtain c2 where 2: "encodeState_WriteString c1 ('' 0 obj'' @ newline) = (c2, length ('' 0 obj'' @ newline), None)"
      "cgrows c1 ('' 0 obj'' @ newline) c2" by auto
    have g2: "wgrows (writer_of c) ?head (writer_of c2)"
      using wgrows_trans[OF 0 cgrows_wgrows[OF cgrows_trans[OF 1(2) 2(2)]]] by simp
    have t2: "same_tbl (fst (objName s name)) (fst c2)"
      using o cgrows_same_tbl[OF 1(2)] cgrows_same_tbl[OF 2(2)] by (auto intro: same_tbl_trans)
    let ?goal = "\<exists>c1. encode (Indirect name obj) c = (c1, snd (snd (render (Indirect name obj) s)))
            \<and> wgrows (writer_of c) (fst (render (Indirect name obj) s)) (writer_of c1)
            \<and> same_tbl (fst (snd (render (Indirect name obj) s))) (fst c1)"
    show ?goal
    proof (cases obj)
      case None
      then show ?thesis using 1 2 g2 t2 o
        by (auto simp: case_prod_beta Let_def)
    next
      case (Some ob)
      have "P_clean ob c2"
        using "11.IH"[of "objName (fst c) name" ?s1 ?n "(c1, None)" c1 None
            "(c2, length ('' 0 obj'' @ newline), None)" c2 "(length ('' 0 obj'' @ newline), None)"
            "length ('' 0 obj'' @ newline)" None ob] 1 2 Some by simp
      then obtain c3 where 3: "encode ob c2 = (c3, snd (snd (render ob (fst (objName s name)))))"
        "wgrows (writer_of c2) (fst (render ob (fst (objName s name)))) (writer_of c3)"
        "same_tbl (fst (snd (render ob (fst (objName s name))))) (fst c3)"
        using cgrows_clean[OF 2(2)] t2 unfolding P_clean_def by blast
      let ?t = "fst (render ob (fst (objName s name)))" and ?r = "snd (snd (render ob (fst (objName s name))))"
      have g3: "wgrows (writer_of c) (?head @ ?t) (writer_of c3)" using wgrows_trans[OF g2 3(2)] .
      show ?thesis
      proof (cases "?r = Returns None")
        case False
        then show ?thesis using Some 1 2 3 g3 o
          by (auto simp: case_prod_beta Let_def)
      next
        case True
        let ?m = "newline @ ''endobj'' @ newline"
        from encodeState_WriteString_clean[OF wgrows_clean[OF 3(2)], of ?m]
        obtain c4 where 4: "encodeState_WriteString c3 ?m = (c4, length ?m, None)" "cgrows c3 ?m c4" by auto
        have "wgrows (writer_of c) ((?head @ ?t) @ ?m) (writer_of c4)"
          using wgrows_trans[OF g3 cgrows_wgrows[OF 4(2)]] .
        moreover have "same_tbl (fst (snd (render ob (fst (objName s name))))) (fst c4)"
          using 3(3) cgrows_same_tbl[OF 4(2)] by (auto intro: same_tbl_trans)
        ultimately show ?thesis using True Some 1 2 3 4 o
          by (auto simp: case_prod_beta Let_def)
      qed
    qed
  qed
next
  case (12 wr)
  show ?case unfolding Q_clean_def
    using io_WriteString_clean[of wr "''null''"] by (auto simp: EncodeObject.simps renderObject.simps)
next
  case (13 wr obj)
  show ?case unfolding Q_clean_def
  proof (intro impI)
    assume cl: "clean wr"
    have c0: "clean (writer_of (newState, wr))" by (rule newState_clean[OF cl])
    have "P_clean obj (newState, wr)" using "13.IH"[of newState] by (simp add: newState_def)
    then obtain c1 where 1: "encode obj (newState, wr) = (c1, snd (snd (render obj newState)))"
      "wgrows (writer_of (newState, wr)) (fst (render obj newState)) (writer_of c1)"
      using c0 unfolding P_clean_def by (metis fst_conv same_tbl_refl)
    let ?t = "fst (render obj newState)" and ?r = "snd (snd (render obj newState))"
    from encodeState_Close_clean[OF wgrows_clean[OF 1(2)]]
    obtain c2 where 2: "encodeState_Close c1 = (c2, None)" "grows (snd c1) (buf (w (fst c1))) (snd c2)"
      by auto
    have e1: "err (fst c1) = None" using wgrows_clean[OF 1(2)] by (simp add: writer_of_def)
    have g: "grows wr ?t (snd c2)"
      using 1(2) 2(2) by (auto simp: grows_def wgrows_def writer_of_def newState_def bufio_NewWriter_def)
    have r: "(case ?r of Panics \<Rightarrow> Panics | Returns None \<Rightarrow> Returns None | Returns (Some e) \<Rightarrow> Returns (Some e)) = ?r"
      by (auto split: outcome.splits option.splits)
    have "EncodeObject wr (Some obj) = (snd c2, ?r)"
      using 1(1) 2(1) e1 
      by (auto simp add: EncodeObject.simps newState_def[symmetric] case_prod_beta split: outcome.splits option.splits)
    then show "\<exists>wr1. EncodeObject wr (Some obj) = (wr1, snd (renderObject (Some obj)))
        \<and> grows wr (fst (renderObject (Some obj))) wr1"
      using g by (simp add: renderObject.simps case_prod_beta)
  qed
next
  case (14 spacing c)
  show ?case by (simp add: R_clean_def cgrows_refl)
next
  case (15 obj a spacing c)
  show ?case unfolding R_clean_def
  proof (intro impI)
    assume cl: "clean (writer_of c)"
    from encodeState_WriteString_clean[OF cl, of spacing]
    obtain c1 where 1: "encodeState_WriteString c spacing = (c1, length spacing, None)" "cgrows c spacing c1" by auto
    have "Q_clean (writer_of c1) obj"
      using "15.IH"(1)[of "(c1, length spacing, None)" c1 "(length spacing, None)" "length spacing" None] 1 by simp
    from Q_ctx[OF this cgrows_clean[OF 1(2)]]
    obtain wr2 where 2: "EncodeObject (writer_of c1) obj = (wr2, snd (renderObject obj))"
      "cgrows c1 (fst (renderObject obj)) (ctx_of wr2 c1)" by blast
    let ?t = "fst (renderObject obj)" and ?r = "snd (renderObject obj)" and ?c2 = "ctx_of wr2 c1"
    have g2: "cgrows c (spacing @ ?t) ?c2" using cgrows_trans[OF 1(2) 2(2)] .
    show "\<exists>c1. Array_loop (obj # a) spacing c = (c1, snd (render_elems (obj # a) spacing))
          \<and> cgrows c (fst (render_elems (obj # a) spacing)) c1"
    proof (cases "?r = Returns None")
      case False
      then show ?thesis using 1 2 g2 by (auto simp: case_prod_beta Let_def)
    next
      case True
      have "R_clean a '' '' ?c2"
        using "15.IH"(2)[of "(c1, length spacing, None)" c1 "(length spacing, None)" "length spacing" None
            "(wr2, ?r)" wr2 ?r ?c2] 1 2 True by simp
      then obtain c3 where 3: "Array_loop a '' '' ?c2 = (c3, snd (render_elems a '' ''))"
        "cgrows ?c2 (fst (render_elems a '' '')) c3"
        using cgrows_clean[OF 2(2)] by (auto simp: R_clean_def)
      have "cgrows c ((spacing @ ?t) @ fst (render_elems a '' '')) c3" using cgrows_trans[OF g2 3(2)] .
      then show ?thesis using True 1 2 3 by (auto simp: case_prod_beta Let_def)
    qed
  qed
next
  case (16 c)
  show ?case by (simp add: S_clean_def cgrows_refl)
next
  case (17 kv d c)
  let ?K = "Some (Name (fst kv))"
  show ?case unfolding S_clean_def
  proof (intro impI)
    assume cl: "clean (writer_of c)"
    from encodeState_WriteByte_clean[OF cl, of "CHR 0x0A"]
    obtain c1 where 1: "encodeState_WriteByte c CHR 0x0A = (c1, None)" "cgrows c [CHR 0x0A] c1" by auto
    have "Q_clean (writer_of c1) ?K"
      using "17.IH"(1)[of "(c1, None)" c1 None] 1 by simp
    from Q_ctx[OF this cgrows_clean[OF 1(2)]]
    obtain wr2 where 2: "EncodeObject (writer_of c1) ?K = (wr2, snd (renderObject ?K))"
      "cgrows c1 (fst (renderObject ?K)) (ctx_of wr2 c1)" by blast
    let ?tk = "fst (renderObject ?K)" and ?rk = "snd (renderObject ?K)" and ?c2 = "ctx_of wr2 c1"
    have g2: "cgrows c (newline @ ?tk) ?c2" using cgrows_trans[OF 1(2) 2(2)] by (simp add: newline_def)
    let ?goal = "\<exists>c1. Dict_loop (kv # d) c = (c1, snd (render_entries (kv # d)))
          \<and> cgrows c (fst (render_entries (kv # d))) c1"
    show ?goal
    proof (cases "?rk = Returns None")
      case False
      then show ?thesis using 1 2 g2 by (auto simp: case_prod_beta Let_def simp del: renderObject.simps EncodeObject.simps)
    next
      case True
      from encodeState_WriteByte_clean[OF cgrows_clean[OF 2(2)], of "CHR '' ''"]
      obtain c3 where 3: "encodeState_WriteByte ?c2 CHR '' '' = (c3, None)" "cgrows ?c2 '' '' c3" by auto
      have "Q_clean (writer_of c3) (snd kv)"
        using "17.IH"(2)[of "(c1, None)" c1 None "(wr2, ?rk)" wr2 ?rk ?c2 "(c3, None)" c3 None] 1 2 3 True
        by simp
      from Q_ctx[OF this cgrows_clean[OF 3(2)]]
      obtain wr4 where 4: "EncodeObject (writer_of c3) (snd kv) = (wr4, snd (renderObject (snd kv)))"
        "cgrows c3 (fst (renderObject (snd kv))) (ctx_of wr4 c3)" by blast
      let ?tv = "fst (renderObject (snd kv))" and ?rv = "snd (renderObject (snd kv))" and ?c4 = "ctx_of wr4 c3"
      have g4: "cgrows c (((newline @ ?tk) @ '' '') @ ?tv) ?c4"
        using cgrows_trans[OF cgrows_trans[OF g2 3(2)] 4(2)] .
      show ?thesis
      proof (cases "?rv = Returns None")
        case False
        then show ?thesis using True 1 2 3 4 g4
          by (auto simp: case_prod_beta Let_def simp del: renderObject.simps EncodeObject.simps)
      next
        case rv: True
        have "S_clean d ?c4"
          using "17.IH"(3)[of "(c1, None)" c1 None "(wr2, ?rk)" wr2 ?rk ?c2 "(c3, None)" c3 None
              "(wr4, ?rv)" wr4 ?rv ?c4] 1 2 3 4 True rv
          by simp
        then obtain c5 where 5: "Dict_loop d ?c4 = (c5, snd (render_entries d))"
          "cgrows ?c4 (fst (render_entries d)) c5"
          using cgrows_clean[OF 4(2)] by (auto simp: S_clean_def)
        have "cgrows c ((((newline @ ?tk) @ '' '') @ ?tv) @ fst (render_entries d)) c5"
          using cgrows_trans[OF g4 5(2)] .
        then show ?thesis using True rv 1 2 3 4 5
          by (auto simp: case_prod_beta Let_def simp del: renderObject.simps EncodeObject.simps)
      qed
    qed
  qed
qed

subsection \<open>The \<open>encode\<close> methods when writes may fail\<close>

lemma ckeeps_refl: "ckeeps c c"
  by (simp add: ckeeps_def passes_refl)

lemma ckeeps_trans: "ckeeps a b \<Longrightarrow> ckeeps b c \<Longrightarrow> ckeeps a c"
  by (auto simp: ckeeps_def passes_def)

lemma mpasses_ckeeps: "mpasses c c1 e \<Longrightarrow> ckeeps c c1"
  by (auto simp: mpasses_def ckeeps_def intro: passes_weak)

lemmas method_keeps =
  encodeState_Write_passes[THEN mpasses_ckeeps]
  encodeState_WriteString_passes[THEN mpasses_ckeeps]
  encodeState_WriteByte_passes[THEN mpasses_ckeeps]
  encodeState_WriteRune_passes[THEN mpasses_ckeeps]
  encodeState_Close_passes[THEN mpasses_ckeeps]

lemma fmt_Fprint_keeps: "fmt_Fprint c str = (c1, e) \<Longrightarrow> ckeeps c c1"
  by (auto simp: fmt_Fprint_def split: prod.splits dest: method_keeps)

lemma write_pending_keeps: "write_pending c pending = (c1, e) \<Longrightarrow> ckeeps c c1"
  by (auto simp: write_pending_def ckeeps_refl split: prod.splits if_splits dest: method_keeps)

lemma Replacer_WriteString_keeps:
  "Replacer_WriteString c pending str = (c1, e) \<Longrightarrow> ckeeps c c1"
proof (induction str arbitrary: c pending c1 e)
  case Nil
  then show ?case by (auto dest: write_pending_keeps)
next
  case (Cons b rest)
  show ?case
  proof (cases "replacement b")
    case None
    then show ?thesis using Cons by auto
  next
    case (Some new)
    obtain c2 e2 where 1: "write_pending c pending = (c2, e2)" by (cases "write_pending c pending") auto
    obtain c3 n3 e3 where 2: "encodeState_Write c2 new = (c3, n3, e3)"
      by (cases "encodeState_Write c2 new") auto
    note k1 = write_pending_keeps[OF 1] and k2 = method_keeps(1)[OF 2]
    show ?thesis
    proof (cases "e2 = None \<and> e3 = None")
      case True
      then have "Replacer_WriteString c3 [] rest = (c1, e)" using Cons.prems Some 1 2 by simp
      from Cons.IH[OF this] k1 k2 show ?thesis by (blast intro: ckeeps_trans)
    next
      case False
      then have "c1 = c2 \<or> c1 = c3" using Cons.prems Some 1 2 by (auto split: if_splits)
      then show ?thesis using k1 k2 by (auto intro: ckeeps_trans)
    qed
  qed
qed

lemma LiteralString_encode_keeps: "LiteralString_encode str c = (c1, e) \<Longrightarrow> ckeeps c c1"
proof -
  assume a: "LiteralString_encode str c = (c1, e)"
  obtain c2 e2 where 1: "encodeState_WriteByte c CHR ''('' = (c2, e2)"
    by (cases "encodeState_WriteByte c CHR ''(''") auto
  obtain c3 e3 where 2: "Replacer_WriteString c2 [] str = (c3, e3)"
    by (cases "Replacer_WriteString c2 [] str") auto
  obtain c4 e4 where 3: "encodeState_WriteByte c3 CHR '')'' = (c4, e4)"
    by (cases "encodeState_WriteByte c3 CHR '')''") auto
  have "c1 = c4" using a 1 2 3 by (simp add: LiteralString_encode_def)
  then show ?thesis
    using method_keeps(3)[OF 1] Replacer_WriteString_keeps[OF 2] method_keeps(3)[OF 3]
    by (blast intro: ckeeps_trans)
qed

lemma Name_loop_keeps: "Name_loop rs c = (c1, e) \<Longrightarrow> ckeeps c c1"
proof (induction rs arbitrary: c c1 e)
  case Nil
  then show ?case by (simp add: ckeeps_refl)
next
  case (Cons r rs)
  have step: "ckeeps c c1" if k: "ckeeps c c2" and r: "c1 = c2 \<or> Name_loop rs c2 = (c1, e)" for c2
    using k r Cons.IH by (blast intro: ckeeps_trans)
  consider (hex) "r < 33 \<or> r > 126" | (hash) "\<not> (r < 33 \<or> r > 126)" "r = 35"
    | (plain) "\<not> (r < 33 \<or> r > 126)" "r \<noteq> 35" by blast
  then show ?case
  proof cases
    case hex
    obtain c2 e2 where 1: "fmt_Fprint c (''#'' @ fmt_X r) = (c2, e2)"
      by (cases "fmt_Fprint c (''#'' @ fmt_X r)") auto
    have "c1 = c2 \<or> Name_loop rs c2 = (c1, e)" using Cons.prems hex 1 by (auto split: if_splits)
    then show ?thesis using step[OF fmt_Fprint_keeps[OF 1]] by simp
  next
    case hash
    obtain c3 n3 e3 where 2: "encodeState_WriteString c ''#23'' = (c3, n3, e3)"
      by (cases "encodeState_WriteString c ''#23''") auto
    have "c1 = c3 \<or> Name_loop rs c3 = (c1, e)" using Cons.prems hash 2 by (auto split: if_splits)
    then show ?thesis using step[OF method_keeps(2)[OF 2]] by simp
  next
    case plain
    obtain c4 n4 e4 where 3: "encodeState_WriteRune c r = (c4, n4, e4)"
      by (cases "encodeState_WriteRune c r") auto
    have "c1 = c4 \<or> Name_loop rs c4 = (c1, e)" using Cons.prems plain 3 by (auto split: if_splits)
    then show ?thesis using step[OF method_keeps(4)[OF 3]] by simp
  qed
qed

lemma Name_encode_keeps: "Name_encode n c = (c1, e) \<Longrightarrow> ckeeps c c1"
proof -
  assume a: "Name_encode n c = (c1, e)"
  obtain c2 e2 where 1: "encodeState_WriteByte c CHR ''/'' = (c2, e2)"
    by (cases "encodeState_WriteByte c CHR ''/''") auto
  then have "Name_loop (runes n) c2 = (c1, e)" using a by (simp add: Name_encode_def)
  from Name_loop_keeps[OF this] method_keeps(3)[OF 1] show ?thesis by (blast intro: ckeeps_trans)
qed

lemma objName_keeps: "ckeeps c (fst (objName (fst c) n), snd c)"
proof (cases "snd c")
  case (Sink k)
  then show ?thesis by (simp add: ckeeps_def passes_def writer_of_def)
next
  case (Enc t u)
  then show ?thesis by (simp add: ckeeps_def passes_def writer_of_def)
qed

lemma Integer_encode_keeps: "Integer_encode i c = (c1, e) \<Longrightarrow> ckeeps c c1"
  by (auto simp: Integer_encode_def dest: fmt_Fprint_keeps)

lemma Reference_encode_keeps: "Reference_encode r c = (c1, e) \<Longrightarrow> ckeeps c c1"
proof -
  assume a: "Reference_encode r c = (c1, e)"
  let ?c0 = "(fst (objName (fst c) r), snd c)"
  obtain c2 e2 where 1: "Integer_encode (snd (objName (fst c) r)) ?c0 = (c2, e2)"
    by (cases "Integer_encode (snd (objName (fst c) r)) ?c0") auto
  obtain c3 n3 e3 where 2: "encodeState_WriteString c2 '' 0 R'' = (c3, n3, e3)"
    by (cases "encodeState_WriteString c2 '' 0 R''") auto
  have "c1 = c2 \<or> c1 = c3" using a 1 2 by (auto simp: Reference_encode_def case_prod_beta split: if_splits)
  then show ?thesis
    using objName_keeps[of c r] Integer_encode_keeps[OF 1] method_keeps(2)[OF 2]
    by (auto intro: ckeeps_trans)
qed

lemma io_Copy_keeps: "io_Copy c src written = (c1, n, e) \<Longrightarrow> ckeeps c c1"
proof (induction c src written arbitrary: c1 n e rule: io_Copy.induct)
  case (1 c src written)
  show ?case
  proof (cases "src = []")
    case True
    then show ?thesis using "1.prems" by (simp add: io_Copy.simps ckeeps_refl)
  next
    case False
    obtain c2 nw ew where w: "encodeState_Write c (take copyBufSize src) = (c2, nw, ew)"
      by (cases "encodeState_Write c (take copyBufSize src)") auto
    note k = method_keeps(1)[OF w]
    show ?thesis
    proof (cases "ew = None \<and> length (take copyBufSize src) = nw")
      case True
      then have "io_Copy c2 (drop copyBufSize src) (written + nw) = (c1, n, e)"
        using "1.prems" False w by (subst (asm) io_Copy.simps) simp
      then have "ckeeps c2 c1"
        using "1.IH"[of "(c2, nw, ew)" c2 "(nw, ew)" nw ew c1 n e] False w True by simp
      then show ?thesis using k by (blast intro: ckeeps_trans)
    next
      case nt: False
      then have "c1 = c2" using "1.prems" False w
        by (subst (asm) io_Copy.simps) (auto split: if_splits)
      then show ?thesis using k by simp
    qed
  qed
qed

lemma io_CopyN_keeps: "io_CopyN c src n = (c1, m, e) \<Longrightarrow> ckeeps c c1"
  by (auto simp: io_CopyN_def split: prod.splits if_splits dest: io_Copy_keeps)

lemma io_WriteString_passes:
  assumes "io_WriteString wr str = (wr1, n, e)" shows "passes wr wr1 (is_err e)"
proof (cases wr)
  case (Sink k)
  then show ?thesis using assms sink_Write_passes[of k str]
    by (auto simp: io_WriteString_def split: prod.splits)
next
  case (Enc s u)
  obtain c1 n1 e1 where 1: "encodeState_WriteString (s, u) str = (c1, n1, e1)"
    by (cases "encodeState_WriteString (s, u) str") auto
  from encodeState_WriteString_passes[OF 1] show ?thesis using assms Enc 1
    by (auto simp: io_WriteString_def mpasses_def writer_of_def)
qed

lemma passes_ctx_of:
  assumes "passes (writer_of c) wr1 True" shows "ckeeps c (ctx_of wr1 c)"
proof -
  have "depth wr1 = Suc (depth (snd c))" using assms by (simp add: passes_def writer_of_def)
  then obtain s u where "wr1 = Enc s u" using depth_Suc by blast
  then show ?thesis using assms by (simp add: ckeeps_def writer_of_def)
qed

lemma WB_k: "ckeeps c (fst (encodeState_WriteByte c b))"
  by (cases "encodeState_WriteByte c b") (auto dest: method_keeps)
lemma WS_k: "ckeeps c (fst (encodeState_WriteString c s))"
  by (cases "encodeState_WriteString c s") (auto dest: method_keeps)
lemma Close_k: "ckeeps c (fst (encodeState_Close c))"
  by (cases "encodeState_Close c") (auto dest: method_keeps)
lemma CopyN_k: "ckeeps c (fst (io_CopyN c src n))"
  by (cases "io_CopyN c src n") (auto dest: io_CopyN_keeps)
lemma Int_k: "ckeeps c (fst (Integer_encode i c))"
  by (cases "Integer_encode i c") (auto dest: Integer_encode_keeps)

lemma Q_k_ctx: "Q_k (writer_of c) x \<Longrightarrow> ckeeps c (ctx_of (fst (EncodeObject (writer_of c) x)) c)"
  unfolding Q_k_def by (rule passes_ctx_of)

lemma pop_passes:
  assumes "depth (writer_of c2) = Suc (depth wr)" "sound (Enc s0 wr) \<longrightarrow> sound (writer_of c2)"
  shows "passes wr (snd c2) True"
proof (cases wr)
  case (Sink k)
  then obtain k2 where "snd c2 = Sink k2" using assms(1) depth_0[of "snd c2"] by (auto simp: writer_of_def)
  then show ?thesis using Sink by (simp add: passes_def)
next
  case (Enc t u)
  then obtain t2 u2 where "snd c2 = Enc t2 u2" using assms(1) depth_Suc[of "snd c2"] by (auto simp: writer_of_def)
  then show ?thesis using Enc assms by (auto simp: passes_def writer_of_def)
qed

lemma encode_keeps:
  shows "P_k obj c" and "Q_k wr x" and "R_k a spacing c'" and "S_k d c''"
proof (induction obj c and wr x and a spacing c' and d c'' rule: encode_EncodeObject_Array_loop_Dict_loop.induct)
  case (1 b c)
  show ?case by (cases "fmt_Fprint c (fmt_bool b)") (auto simp: P_k_def Boolean_encode_def dest: fmt_Fprint_keeps)
next
  case (2 i c)
  show ?case using Int_k[of c i] by (simp add: P_k_def case_prod_beta)
next
  case (3 r c)
  show ?case by (cases "fmt_Fprint c r") (auto simp: P_k_def Real_encode_def dest: fmt_Fprint_keeps)
next
  case (4 str c)
  show ?case by (cases "LiteralString_encode str c") (auto simp: P_k_def dest: LiteralString_encode_keeps)
next
  case (5 str c)
  show ?case by (cases "fmt_Fprint c (''<'' @ fmt_X_bytes str @ ''>'')")
      (auto simp: P_k_def HexString_encode_def dest: fmt_Fprint_keeps)
next
  case (6 n c)
  show ?case by (cases "Name_encode n c") (auto simp: P_k_def dest: Name_encode_keeps)
next
  case (7 r c)
  show ?case by (cases "Reference_encode r c") (auto simp: P_k_def dest: Reference_encode_keeps)
next
  case (8 a c)
  let ?c1 = "fst (encodeState_WriteByte c CHR ''['')"
  let ?c2 = "fst (Array_loop a [] ?c1)"
  have 1: "ckeeps c ?c1" by (rule WB_k)
  have 2: "ckeeps ?c1 ?c2" using "8.IH"[OF refl prod.collapse] by (simp add: R_k_def)
  have 3: "ckeeps ?c2 (fst (encodeState_WriteByte ?c2 CHR '']''))" by (rule WB_k)
  show ?case unfolding P_k_def
    using ckeeps_trans[OF 1 2] ckeeps_trans[OF ckeeps_trans[OF 1 2] 3]
    by (simp add: case_prod_beta Let_def)
next
  case (9 d c)
  let ?c1 = "fst (encodeState_WriteString c ''<<'')"
  let ?c2 = "fst (Dict_loop d ?c1)"
  have 1: "ckeeps c ?c1" by (rule WS_k)
  have 2: "ckeeps ?c1 ?c2" using "9.IH"[OF refl prod.collapse prod.collapse] by (simp add: S_k_def)
  have 3: "ckeeps ?c2 (fst (encodeState_WriteString ?c2 (newline @ ''>>'')))" by (rule WS_k)
  show ?case unfolding P_k_def
    using ckeeps_trans[OF 1 2] ckeeps_trans[OF ckeeps_trans[OF 1 2] 3]
    by (simp add: case_prod_beta Let_def)
next
  case (10 n data c)
  let ?D = "Some (Dict [(''Length'', Some (Integer n))])"
  let ?c1 = "ctx_of (fst (EncodeObject (writer_of c) ?D)) c"
  let ?c2 = "fst (encodeState_WriteString ?c1 (newline @ ''stream'' @ newline))"
  have 1: "ckeeps c ?c1" by (rule Q_k_ctx[OF "10.IH"])
  have 2: "ckeeps c ?c2" by (rule ckeeps_trans[OF 1 WS_k])
  have 3: "ckeeps c (fst (encodeState_WriteString ?c2 (newline @ ''endstream'' @ newline)))"
    by (rule ckeeps_trans[OF 2 WS_k])
  have 4: "ckeeps c (fst (io_CopyN ?c2 src n))" for src
    by (rule ckeeps_trans[OF 2 CopyN_k])
  have 5: "ckeeps c (fst (encodeState_WriteString (fst (io_CopyN ?c2 src n)) (newline @ ''endstream'' @ newline)))" for src
    by (rule ckeeps_trans[OF 4 WS_k])
  show ?case unfolding P_k_def
    using 1 2 3 4 5
    by (simp add: case_prod_beta Let_def split: option.splits del: EncodeObject.simps)
next
  case (11 name obj c)
  let ?o = "objName (fst c) name"
  let ?c0 = "(fst ?o, snd c)"
  let ?c1 = "fst (Integer_encode (snd ?o) ?c0)"
  let ?c2 = "fst (encodeState_WriteString ?c1 ('' 0 obj'' @ newline))"
  have 1: "ckeeps c ?c1" by (rule ckeeps_trans[OF objName_keeps Int_k])
  have 2: "ckeeps c ?c2" by (rule ckeeps_trans[OF 1 WS_k])
  show ?case
  proof (cases obj)
    case None
    then show ?thesis unfolding P_k_def using 1 2 by (simp add: case_prod_beta Let_def)
  next
    case (Some ob)
    have 3: "snd (Integer_encode (snd ?o) ?c0) = None \<Longrightarrow> ckeeps ?c2 (fst (encode ob ?c2))"
      using "11.IH"[OF refl prod.collapse refl prod.collapse _ refl prod.collapse prod.collapse Some]
      by (simp add: P_k_def)
    have 4: "snd (Integer_encode (snd ?o) ?c0) = None \<Longrightarrow> ckeeps c (fst (encode ob ?c2))"
      by (rule ckeeps_trans[OF 2 3])
    have 5: "snd (Integer_encode (snd ?o) ?c0) = None \<Longrightarrow>
        ckeeps c (fst (encodeState_WriteString (fst (encode ob ?c2)) (newline @ ''endobj'' @ newline)))"
      by (rule ckeeps_trans[OF 4 WS_k])
    show ?thesis unfolding P_k_def using Some 1 2 4 5
      by (auto simp add: case_prod_beta Let_def)
  qed
next
  case (12 wr)
  show ?case unfolding Q_k_def
    by (cases "io_WriteString wr ''null''") (auto simp: EncodeObject.simps dest: io_WriteString_passes intro: passes_weak)
next
  case (13 wr obj)
  let ?ew = "\<lparr>w = bufio_NewWriter, err = None, nextName = 0, names = None\<rparr>"
  let ?c1 = "fst (encode obj (?ew, wr))"
  let ?c2 = "fst (encodeState_Close ?c1)"
  have "ckeeps (?ew, wr) ?c1" using "13.IH"[OF refl] by (simp add: P_k_def)
  then have "ckeeps (?ew, wr) ?c2" by (rule ckeeps_trans[OF _ Close_k])
  then have "passes wr (snd ?c2) True"
    by (intro pop_passes[where ?s0.0 = ?ew]) (auto simp: ckeeps_def passes_def writer_of_def)
  then show ?case unfolding Q_k_def by (simp add: EncodeObject.simps case_prod_beta Let_def)
next
  case (14 spacing c)
  show ?case by (simp add: R_k_def ckeeps_refl)
next
  case (15 obj a spacing c)
  let ?c1 = "fst (encodeState_WriteString c spacing)"
  let ?e = "snd (snd (encodeState_WriteString c spacing))"
  let ?E = "EncodeObject (writer_of ?c1) obj"
  let ?c2 = "ctx_of (fst ?E) ?c1"
  have 1: "ckeeps c ?c1" by (rule WS_k)
  have 2: "?e = None \<Longrightarrow> ckeeps ?c1 ?c2"
    using "15.IH"(1)[OF refl prod.collapse prod.collapse] by (auto intro: Q_k_ctx)
  have 3: "?e = None \<Longrightarrow> snd ?E = Returns None \<Longrightarrow> ckeeps ?c2 (fst (Array_loop a '' '' ?c2))"
    using "15.IH"(2)[OF refl prod.collapse prod.collapse _ refl prod.collapse refl] by (simp add: R_k_def)
  show ?case unfolding R_k_def using 1 2 3
    by (auto simp add: case_prod_beta Let_def intro: ckeeps_trans)
next
  case (16 c)
  show ?case by (simp add: S_k_def ckeeps_refl)
next
  case (17 kv d c)
  let ?c1 = "fst (encodeState_WriteByte c CHR 0x0A)"
  let ?E2 = "EncodeObject (writer_of ?c1) (Some (Name (fst kv)))"
  let ?c2 = "ctx_of (fst ?E2) ?c1"
  let ?c3 = "fst (encodeState_WriteByte ?c2 CHR '' '')"
  let ?E4 = "EncodeObject (writer_of ?c3) (snd kv)"
  let ?c4 = "ctx_of (fst ?E4) ?c3"
  have 1: "ckeeps c ?c1" by (rule WB_k)
  have 2: "ckeeps ?c1 ?c2"
    using "17.IH"(1)[OF refl prod.collapse] by (auto intro: Q_k_ctx)
  have 3: "ckeeps ?c2 ?c3" by (rule WB_k)
  have 4: "snd ?E2 = Returns None \<Longrightarrow> ckeeps ?c3 ?c4"
    using "17.IH"(2)[OF refl prod.collapse refl prod.collapse refl _ refl prod.collapse] by (auto intro: Q_k_ctx)
  have 5: "snd ?E2 = Returns None \<Longrightarrow> snd ?E4 = Returns None \<Longrightarrow> ckeeps ?c4 (fst (Dict_loop d ?c4))"
    using "17.IH"(3)[OF refl prod.collapse refl prod.collapse refl _ refl prod.collapse refl prod.collapse refl]
    by (simp add: S_k_def)
  have 12: "ckeeps c ?c2" by (rule ckeeps_trans[OF 1 2])
  have 13: "ckeeps c ?c3" by (rule ckeeps_trans[OF 12 3])
  show ?case unfolding S_k_def using 12 13 4 5
    by (auto simp add: case_prod_beta Let_def simp del: EncodeObject.simps intro: ckeeps_trans)
qed

subsection \<open>Where \<open>encode\<close> panics\<close>

lemma encode_no_panic:
  shows "nil_free obj \<Longrightarrow> snd (encode obj c) \<noteq> Panics"
    and "nil_freeO x \<Longrightarrow> snd (EncodeObject wr x) \<noteq> Panics"
    and "nil_freeL a \<Longrightarrow> snd (Array_loop a spacing c') \<noteq> Panics"
    and "nil_freeD d \<Longrightarrow> snd (Dict_loop d c'') \<noteq> Panics"
proof (induction obj c and wr x and a spacing c' and d c'' rule: encode_EncodeObject_Array_loop_Dict_loop.induct)
  case (8 a c)
  then show ?case using "8.IH"[OF refl prod.collapse] by (simp add: case_prod_beta Let_def)
next
  case (9 d c)
  then show ?case using "9.IH"[OF refl prod.collapse prod.collapse] by (simp add: case_prod_beta Let_def)
next
  case (10 n data c)
  then show ?case by (auto simp add: case_prod_beta Let_def split: option.splits)
next
  case (11 name obj c)
  then obtain ob where ob: "obj = Some ob" "nil_free ob" by auto
  show ?case
  proof (cases "snd (Integer_encode (snd (objName (fst c) name)) (fst (objName (fst c) name), snd c)) = None")
    case True
    show ?thesis
      using "11.IH"[OF refl prod.collapse refl prod.collapse _ refl prod.collapse prod.collapse ob(1)] ob True
      by (simp add: case_prod_beta Let_def)
  next
    case False
    then show ?thesis using ob by (simp add: case_prod_beta Let_def)
  qed
next
  case (13 wr obj)
  then show ?case using "13.IH"[OF refl]
    by (auto simp add: EncodeObject.simps case_prod_beta Let_def split: outcome.splits option.splits)
next
  case (15 obj a spacing c)
  let ?c1 = "fst (encodeState_WriteString c spacing)"
  let ?e = "snd (snd (encodeState_WriteString c spacing))"
  let ?E = "EncodeObject (writer_of ?c1) obj"
  have 1: "?e = None \<Longrightarrow> snd ?E \<noteq> Panics"
    using "15.IH"(1)[OF refl prod.collapse prod.collapse] "15.prems" by simp
  have 2: "?e = None \<Longrightarrow> snd ?E = Returns None \<Longrightarrow> snd (Array_loop a '' '' (ctx_of (fst ?E) ?c1)) \<noteq> Panics"
    using "15.IH"(2)[OF refl prod.collapse prod.collapse _ refl prod.collapse refl] "15.prems" by simp
  show ?case using 1 2 by (simp add: case_prod_beta Let_def)
next
  case (17 kv d c)
  let ?c1 = "fst (encodeState_WriteByte c CHR 0x0A)"
  let ?E2 = "EncodeObject (writer_of ?c1) (Some (Name (fst kv)))"
  let ?c2 = "ctx_of (fst ?E2) ?c1"
  let ?c3 = "fst (encodeState_WriteByte ?c2 CHR '' '')"
  let ?E4 = "EncodeObject (writer_of ?c3) (snd kv)"
  let ?c4 = "ctx_of (fst ?E4) ?c3"
  have 1: "snd ?E2 \<noteq> Panics"
    using "17.IH"(1)[OF refl prod.collapse] by simp
  have 2: "snd ?E2 = Returns None \<Longrightarrow> snd ?E4 \<noteq> Panics"
    using "17.IH"(2)[OF refl prod.collapse refl prod.collapse refl _ refl prod.collapse] "17.prems" by simp
  have 3: "snd ?E2 = Returns None \<Longrightarrow> snd ?E4 = Returns None \<Longrightarrow> snd (Dict_loop d ?c4) \<noteq> Panics"
    using "17.IH"(3)[OF refl prod.collapse refl prod.collapse refl _ refl prod.collapse refl prod.collapse refl]
      "17.prems" by simp
  show ?case using 1 2 3 by (simp add: case_prod_beta Let_def)
qed (simp_all add: EncodeObject.simps case_prod_beta)

subsection \<open>\<open>EncodeObject\<close> and \<open>Encode\<close> on the output of the caller\<close>

lemma EncodeObject_clean_sink:
  assumes "clean (Sink k)"
  shows "\<exists>k1. EncodeObject (Sink k) x = (Sink k1, snd (renderObject x))
      \<and> out k1 = out k @ fst (renderObject x) \<and> clean (Sink k1)"
proof -
  from encode_clean(2)[of "Sink k" x] assms
  obtain wr1 where 1: "EncodeObject (Sink k) x = (wr1, snd (renderObject x))"
    "grows (Sink k) (fst (renderObject x)) wr1" by (auto simp: Q_clean_def)
  then have "depth wr1 = 0" by (simp add: grows_def)
  then obtain k1 where "wr1 = Sink k1" using depth_0 by blast
  then show ?thesis using 1 by (simp add: grows_def)
qed

lemma good_sink_clean: "clean (Sink good_sink)"
  by (simp add: good_sink_def)

lemma output_of_render: "output_of x = fst (renderObject x)"
  using EncodeObject_clean_sink[OF good_sink_clean, of x]
  by (auto simp: output_of_def good_sink_def)

lemma outcome_of_render: "outcome_of x = snd (renderObject x)"
  using EncodeObject_clean_sink[OF good_sink_clean, of x]
  by (auto simp: outcome_of_def)

lemma EncodeObject_reports:
  assumes nf: "\<not> failed k" and run: "EncodeObject (Sink k) (Some obj) = (wr1, r)"
  shows "\<exists>k1. wr1 = Sink k1 \<and> (failed k1 \<longrightarrow> r \<noteq> Returns None)"
proof -
  let ?ew = "\<lparr>w = bufio_NewWriter, err = None, nextName = 0, names = None\<rparr>"
  obtain c1 r1 where e: "encode obj (?ew, Sink k) = (c1, r1)" by (cases "encode obj (?ew, Sink k)") auto
  obtain c2 cerr where c: "encodeState_Close c1 = (c2, cerr)" by (cases "encodeState_Close c1") auto
  have k1: "ckeeps (?ew, Sink k) c1" using encode_keeps(1)[of obj "(?ew, Sink k)"] e by (simp add: P_k_def)
  then have d1: "depth (snd c1) = 0" and s1: "sound (writer_of c1)"
    using nf by (auto simp: ckeeps_def passes_def writer_of_def)
  then obtain ka where ka: "snd c1 = Sink ka" using depth_0 by blast
  with s1 have rec: "failed ka \<longrightarrow> err (fst c1) \<noteq> None" by (simp add: writer_of_def)
  note m = encodeState_Close_passes[OF c]
  then have "depth (snd c2) = 0" using d1 by (simp add: mpasses_def passes_def writer_of_def)
  then obtain kb where kb: "snd c2 = Sink kb" using depth_0 by blast
  have fl: "\<not> failed ka \<Longrightarrow> failed kb \<Longrightarrow> cerr \<noteq> None"
    using m ka kb by (auto simp: mpasses_def passes_def writer_of_def is_err_def)
  have res: "wr1 = snd c2" "r = (case r1 of Panics \<Rightarrow> Panics | Returns (Some e) \<Rightarrow> Returns (Some e)
          | Returns None \<Rightarrow> if err (fst c1) \<noteq> None then Returns (err (fst c1)) else Returns cerr)"
    using run e c by (simp_all add: EncodeObject.simps)
  have "failed kb \<Longrightarrow> r \<noteq> Returns None"
    using res(2) rec fl by (auto split: outcome.splits option.splits)
  then show ?thesis using res(1) kb by simp
qed

lemma hexdigit_upper: "d < 16 \<Longrightarrow> hexdigit d \<in> set ''0123456789ABCDEF''"
  unfolding hexdigit_def by (rule nth_mem) simp

lemma hex_byte_upper: "set (hex_byte c) \<subseteq> set ''0123456789ABCDEF''"
proof -
  have "(of_char c :: nat) < 16 * 16" using nat_of_char_less_256[of c] by simp
  then have "(of_char c :: nat) div 16 < 16" by (rule less_mult_imp_div_less)
  moreover have "(of_char c :: nat) mod 16 < 16" by simp
  ultimately show ?thesis unfolding hex_byte_def using hexdigit_upper by auto
qed

lemma length_fmt_X_bytes: "length (fmt_X_bytes b) = 2 * length b"
  by (induction b) (simp_all add: fmt_X_bytes_def hex_byte_def)

lemma runes_ascii: "\<forall>c \<in> set x. of_char c < (128::nat) \<Longrightarrow> runes x = map (\<lambda>c. int (of_char c)) x"
  by (induction x) (simp_all add: runes.simps)

lemma Name_text_printable:
  "\<forall>c \<in> set x. (33::nat) \<le> of_char c \<and> of_char c \<le> (126::nat) \<Longrightarrow>
   Name_text (map (\<lambda>c. int (of_char c)) x) = concat (map (\<lambda>c. if c = CHR ''#'' then ''#23'' else [c]) x)"
proof (induction x)
  case Nil
  then show ?case by simp
next
  case (Cons c x)
  have r: "(33::nat) \<le> of_char c" "of_char c \<le> (126::nat)" using Cons.prems by simp_all
  have h: "(int (of_char c) = 35) = (c = CHR ''#'')"
  proof
    assume "int (of_char c) = 35"
    then have "(of_char c :: nat) = of_char CHR ''#''" by simp
    then show "c = CHR ''#''" by (simp only: of_char_eq_iff)
  qed simp
  have e: "encodeRune (int (of_char c)) = [c]" using r by (simp add: encodeRune_def)
  show ?case using Cons r h e by simp
qed

lemmas eval_render = output_of_render outcome_of_render renderObject.simps newState_def objName_def
  fmt_d_def dec_nat.simps decdigit_def fmt_X_def hex_nat.simps hexdigit_def runes.simps
  continuation_def cont_bits_def RuneError_def Let_def newline_def

lemma Name_text_plain:
  assumes "\<forall>c \<in> set x. (33::nat) \<le> of_char c \<and> of_char c \<le> (126::nat)" "CHR ''#'' \<notin> set x"
  shows "Name_text (runes x) = x"
proof -
  have a: "\<forall>c \<in> set x. of_char c < (128::nat)" using assms(1) by auto
  have "concat (map (\<lambda>c. if c = CHR ''#'' then ''#23'' else [c]) x) = x"
    using assms(2) by (induction x) auto
  then show ?thesis by (simp add: runes_ascii[OF a] Name_text_printable[OF assms(1)])
qed

lemma output_of_eq: "output_of = (\<lambda>x. fst (renderObject x))"
  by (rule ext) (simp add: output_of_render)

lemma Length_dict:
  "renderObject (Some (Dict [(''Length'', Some (Integer n))]))
     = (''<<'' @ newline @ ''/Length '' @ fmt_d n @ newline @ ''>>'', Returns None)"
  by (simp add: renderObject.simps Name_text_plain newline_def)

lemma render_elems_ok:
  "\<forall>x \<in> set xs. snd (renderObject x) = Returns None \<Longrightarrow>
   render_elems xs sp
     = ((if xs = [] then [] else sp @ separated (map (\<lambda>x. fst (renderObject x)) xs)), Returns None)"
proof (induction xs arbitrary: sp)
  case Nil
  then show ?case by simp
next
  case (Cons x xs)
  then show ?case by (cases xs) (simp_all add: case_prod_beta)
qed

lemma wWrite_Sink: "wWrite (Sink k) p = (let (k1, n, e) = sink_Write k p in (Sink k1, n, e))"
  by (simp add: wWrite_def)

lemma Body_loop_clean:
  "clean (Sink k) \<Longrightarrow>
   \<exists>k1. Body_loop body (Sink k) = (Sink k1, snd (render_body body))
      \<and> out k1 = out k @ fst (render_body body) \<and> clean (Sink k1)"
proof (induction body arbitrary: k)
  case Nil
  then show ?case by simp
next
  case (Cons ob body)
  let ?x = "Some (Indirect (fst ob) (snd ob))"
  from EncodeObject_clean_sink[OF Cons.prems, of ?x]
  obtain k1 where 1: "EncodeObject (Sink k) ?x = (Sink k1, snd (renderObject ?x))"
    "out k1 = out k @ fst (renderObject ?x)" "clean (Sink k1)" by blast
  show ?case
  proof (cases "snd (renderObject ?x) = Returns None")
    case False
    then show ?thesis using 1 by (simp add: case_prod_beta)
  next
    case True
    from Cons.IH[OF 1(3)]
    obtain k2 where 2: "Body_loop body (Sink k1) = (Sink k2, snd (render_body body))"
      "out k2 = out k1 @ fst (render_body body)" "clean (Sink k2)" by blast
    show ?thesis using True 1 2 by (simp add: case_prod_beta)
  qed
qed

lemma render_body_ok:
  "\<forall>ob \<in> set body. outcome_of (Some (Indirect (fst ob) (snd ob))) = Returns None \<Longrightarrow>
   render_body body
     = (concat (map (\<lambda>ob. output_of (Some (Indirect (fst ob) (snd ob)))) body), Returns None)"
  by (induction body) (simp_all add: case_prod_beta outcome_of_render output_of_render)

lemma render_body_stops:
  "\<forall>ob \<in> set xs. outcome_of (Some (Indirect (fst ob) (snd ob))) = Returns None \<Longrightarrow>
   outcome_of (Some (Indirect (fst ob) (snd ob))) \<noteq> Returns None \<Longrightarrow>
   render_body (xs @ ob # ys)
     = (concat (map (\<lambda>ob. output_of (Some (Indirect (fst ob) (snd ob)))) xs)
          @ output_of (Some (Indirect (fst ob) (snd ob))),
        outcome_of (Some (Indirect (fst ob) (snd ob))))"
  by (induction xs) (simp_all add: case_prod_beta outcome_of_render output_of_render)

lemma Encode_clean:
  "snd (Encode (Sink good_sink) (Some pdf)) = snd (render_body (Body pdf))
   \<and> out (sink_of (fst (Encode (Sink good_sink) (Some pdf))))
     = header @ fst (render_body (Body pdf))
        @ (if snd (render_body (Body pdf)) = Returns None then ''%%EOF'' else [])"
proof -
  have h: "wWrite (Sink good_sink) header = (Sink (good_sink\<lparr>out := header\<rparr>), length header, None)"
    by (simp add: wWrite_Sink sink_Write_def good_sink_def)
  have c1: "clean (Sink (good_sink\<lparr>out := header\<rparr>))" by (simp add: good_sink_def)
  from Body_loop_clean[OF c1, of "Body pdf"]
  obtain k1 where 1: "Body_loop (Body pdf) (Sink (good_sink\<lparr>out := header\<rparr>)) = (Sink k1, snd (render_body (Body pdf)))"
    "out k1 = header @ fst (render_body (Body pdf))" "clean (Sink k1)" by auto
  show ?thesis
  proof (cases "snd (render_body (Body pdf)) = Returns None")
    case False
    then show ?thesis using h 1 by (simp add: Encode_def)
  next
    case True
    have "io_WriteString (Sink k1) ''%%EOF'' = (Sink (k1\<lparr>out := out k1 @ ''%%EOF''\<rparr>), length ''%%EOF'', None)"
      using 1(3) by (simp add: io_WriteString_def sink_Write_def)
    then show ?thesis using True h 1 by (simp add: Encode_def)
  qed
qed

lemma sink_Write_failed:
  "sink_Write k p = (k1, n, e) \<Longrightarrow> \<not> failed k \<Longrightarrow> failed k1 \<Longrightarrow> e \<noteq> None"
  by (auto simp: sink_Write_def split: option.splits)

lemma Body_loop_reports:
  "\<not> failed k \<Longrightarrow> Body_loop body (Sink k) = (wr1, r) \<Longrightarrow>
   \<exists>k1. wr1 = Sink k1 \<and> (failed k1 \<longrightarrow> r \<noteq> Returns None)"
proof (induction body arbitrary: k)
  case Nil
  then show ?case by auto
next
  case (Cons ob body)
  let ?x = "Indirect (fst ob) (snd ob)"
  obtain wr2 r2 where e: "EncodeObject (Sink k) (Some ?x) = (wr2, r2)"
    by (cases "EncodeObject (Sink k) (Some ?x)") auto
  from EncodeObject_reports[OF Cons.prems(1) e]
  obtain k2 where k2: "wr2 = Sink k2" "failed k2 \<longrightarrow> r2 \<noteq> Returns None" by auto
  show ?case
  proof (cases "r2 = Returns None")
    case False
    then have "wr1 = wr2" "r = r2" using Cons.prems(2) e by simp_all
    then show ?thesis using k2 False by simp
  next
    case True
    then have "\<not> failed k2" "Body_loop body (Sink k2) = (wr1, r)"
      using Cons.prems(2) e k2 by simp_all
    then show ?thesis by (rule Cons.IH)
  qed
qed

lemma Encode_reports:
  assumes "\<not> failed k" "failed (sink_of (fst (Encode (Sink k) p)))"
  shows "snd (Encode (Sink k) p) \<noteq> Returns None"
proof -
  obtain k1 n1 e1 where h: "sink_Write k header = (k1, n1, e1)" by (cases "sink_Write k header") auto
  note f1 = sink_Write_failed[OF h assms(1)]
  show ?thesis
  proof (cases "e1 = None")
    case False
    then show ?thesis using h by (simp add: Encode_def wWrite_Sink)
  next
    case True
    then have nf1: "\<not> failed k1" using f1 by auto
    show ?thesis
    proof (cases p)
      case None
      then show ?thesis using h True by (simp add: Encode_def wWrite_Sink)
    next
      case (Some pdf)
      obtain wr2 r2 where b: "Body_loop (Body pdf) (Sink k1) = (wr2, r2)"
        by (cases "Body_loop (Body pdf) (Sink k1)") auto
      from Body_loop_reports[OF nf1 b]
      obtain k2 where k2: "wr2 = Sink k2" "failed k2 \<longrightarrow> r2 \<noteq> Returns None" by auto
      show ?thesis
      proof (cases "r2 = Returns None")
        case False
        then show ?thesis using h True Some b by (simp add: Encode_def wWrite_Sink)
      next
        case r2: True
        then have nf2: "\<not> failed k2" using k2 by simp
        obtain k3 n3 e3 where m: "sink_Write k2 ''%%EOF'' = (k3, n3, e3)"
          by (cases "sink_Write k2 ''%%EOF''") auto
        have "Encode (Sink k) p = (Sink k3, Returns e3)"
          using h True Some b r2 k2 m
          by (simp add: Encode_def wWrite_Sink io_WriteString_def)
        then show ?thesis using assms(2) sink_Write_failed[OF m nf2] by simp
      qed
    qed
  qed
qed

lemma Encode_ok:
  assumes "\<forall>ob \<in> set (Body pdf). outcome_of (Some (Indirect (fst ob) (snd ob))) = Returns None"
  shows "snd (Encode (Sink good_sink) (Some pdf)) = Returns None
      \<and> out (sink_of (fst (Encode (Sink good_sink) (Some pdf))))
           = ''%PDF-1.7'' @ newline
             @ concat (map (\<lambda>ob. output_of (Some (Indirect (fst ob) (snd ob)))) (Body pdf))
             @ ''%%EOF''"
proof -
  have hd: "header = ''%PDF-1.7'' @ newline" by (simp add: header_def Version_def)
  have rb: "render_body (Body pdf)
     = (concat (map (\<lambda>ob. output_of (Some (Indirect (fst ob) (snd ob)))) (Body pdf)), Returns None)"
    by (rule render_body_ok[OF assms])
  show ?thesis using Encode_clean[of pdf] unfolding rb hd by simp
qed

lemma Encode_stops:
  assumes "Body pdf = xs @ ob # ys
       \<and> (\<forall>ob \<in> set xs. outcome_of (Some (Indirect (fst ob) (snd ob))) = Returns None)
       \<and> outcome_of (Some (Indirect (fst ob) (snd ob))) \<noteq> Returns None"
  shows "snd (Encode (Sink good_sink) (Some pdf)) = outcome_of (Some (Indirect (fst ob) (snd ob)))
      \<and> out (sink_of (fst (Encode (Sink good_sink) (Some pdf))))
           = ''%PDF-1.7'' @ newline
             @ concat (map (\<lambda>ob. output_of (Some (Indirect (fst ob) (snd ob)))) xs)
             @ output_of (Some (Indirect (fst ob) (snd ob)))"
proof -
  have hd: "header = ''%PDF-1.7'' @ newline" by (simp add: header_def Version_def)
  have rb: "render_body (Body pdf)
     = (concat (map (\<lambda>ob. output_of (Some (Indirect (fst ob) (snd ob)))) xs)
          @ output_of (Some (Indirect (fst ob) (snd ob))),
        outcome_of (Some (Indirect (fst ob) (snd ob))))"
    using render_body_stops[of xs ob ys] assms by simp
  show ?thesis using Encode_clean[of pdf] assms unfolding rb hd by simp
qed

lemma Body_loop_all:
  "all_encoded xs wr \<Longrightarrow> Body_loop (xs @ ys) wr = Body_loop ys (written_objects xs wr)"
  by (induction xs arbitrary: wr) (simp_all add: case_prod_beta)

lemma Body_loop_first:
  "snd (EncodeObject wr (Some (Indirect (fst ob) (snd ob)))) \<noteq> Returns None \<Longrightarrow>
   Body_loop (ob # ys) wr = EncodeObject wr (Some (Indirect (fst ob) (snd ob)))"
  by (simp add: case_prod_beta)

lemma Encode_header_fails:
  "snd (snd (wWrite wr header)) = Some e \<Longrightarrow> Encode wr p = (fst (wWrite wr header), Returns (Some e))"
  by (simp add: Encode_def case_prod_beta)

lemma Encode_marker:
  assumes "snd (snd (wWrite wr header)) = None" "all_encoded (Body pdf) (fst (wWrite wr header))"
  shows "Encode wr (Some pdf) =
        (fst (io_WriteString (written_objects (Body pdf) (fst (wWrite wr header))) ''%%EOF''),
         Returns (snd (snd (io_WriteString (written_objects (Body pdf) (fst (wWrite wr header))) ''%%EOF''))))"
proof -
  have "Body_loop (Body pdf) (fst (wWrite wr header))
      = (written_objects (Body pdf) (fst (wWrite wr header)), Returns None)"
    using Body_loop_all[OF assms(2), of "[]"] by simp
  then show ?thesis using assms(1) by (simp add: Encode_def case_prod_beta)
qed

lemma Encode_object_fails:
  assumes "snd (snd (wWrite wr header)) = None" "Body pdf = xs @ ob # ys"
    "all_encoded xs (fst (wWrite wr header))"
    "snd (EncodeObject (written_objects xs (fst (wWrite wr header))) (Some (Indirect (fst ob) (snd ob))))
       \<noteq> Returns None"
  shows "Encode wr (Some pdf)
       = EncodeObject (written_objects xs (fst (wWrite wr header))) (Some (Indirect (fst ob) (snd ob)))"
proof -
  have "Body_loop (Body pdf) (fst (wWrite wr header))
      = EncodeObject (written_objects xs (fst (wWrite wr header))) (Some (Indirect (fst ob) (snd ob)))"
    using Body_loop_all[OF assms(3), of "ob # ys"] Body_loop_first[OF assms(4), of ys] assms(2) by simp
  then show ?thesis using assms(1) assms(4) by (simp add: Encode_def case_prod_beta)
qed

lemmas eval_write = encodeState_Write_def Write_on_def bufio_Write_def bufio_Write_direct_def
  Available_def defaultBufSize_def wWrite_Sink sink_Write_def full_after_def bufio_NewWriter_def
  encodeState_WriteString_def encodeState_WriteByte_def encodeState_WriteRune_def encodeState_Close_def
  bufio_WriteString_def bufio_WriteByte_def bufio_WriteRune_def bufio_Flush_def Let_def

section \<open>The claims\<close>

text \<open>
  Claim C1: within one pass every distinct name of an \<open>Indirect\<close> or a \<open>Reference\<close> has one
  id, given in the order of first appearance from 0, also for names inside arrays and
  dictionaries and across the objects of one document. The code keeps the table in the
  \<open>encodeState\<close>, and \<open>Array.encode\<close>, \<open>Dict.encode\<close> and \<open>Encode\<close> pass each element to
  \<open>EncodeObject\<close>, which starts a new state with an empty table; only \<open>Indirect.encode\<close>
  hands its own state to the object it wraps. So two names in one array both get id 0,
  while a name referred to by the object of an \<open>Indirect\<close> gets id 1; and in a document every
  object of the body is numbered 0, and a name is 1 where it is referred to and 0 where it
  is defined.
\<close>

theorem names_restart_in_elements:
  "output_of (Some (Array [Some (Reference ''a''), Some (Reference ''b'')])) = ''[0 0 R 0 0 R]''
   \<and> output_of (Some (Indirect ''a'' (Some (Reference ''b''))))
        = ''0 0 obj'' @ newline @ ''1 0 R'' @ newline @ ''endobj'' @ newline
   \<and> out (sink_of (fst (Encode (Sink good_sink)
          (Some \<lparr>Body = [(''a'', Some (Reference ''b'')), (''b'', Some (Integer 5))]\<rparr>))))
        = ''%PDF-1.7'' @ newline @ ''0 0 obj'' @ newline @ ''1 0 R'' @ newline @ ''endobj'' @ newline
          @ ''0 0 obj'' @ newline @ ''5'' @ newline @ ''endobj'' @ newline @ ''%%EOF''"
proof -
  have 1: "output_of (Some (Array [Some (Reference ''a''), Some (Reference ''b'')])) = ''[0 0 R 0 0 R]''"
    by (simp add: eval_render)
  have 2: "output_of (Some (Indirect ''a'' (Some (Reference ''b''))))
        = ''0 0 obj'' @ newline @ ''1 0 R'' @ newline @ ''endobj'' @ newline"
    "outcome_of (Some (Indirect ''a'' (Some (Reference ''b'')))) = Returns None"
    by (simp_all add: eval_render)
  have 3: "output_of (Some (Indirect ''b'' (Some (Integer 5))))
        = ''0 0 obj'' @ newline @ ''5'' @ newline @ ''endobj'' @ newline"
    "outcome_of (Some (Indirect ''b'' (Some (Integer 5)))) = Returns None"
    by (simp_all add: eval_render)
  show ?thesis
    using Encode_ok[of "\<lparr>Body = [(''a'', Some (Reference ''b'')), (''b'', Some (Integer 5))]\<rparr>"] 1 2 3
    by simp
qed

text \<open>
  Claim C2: once a write on an encode state has failed, every later \<open>Write\<close>, \<open>WriteString\<close>,
  \<open>WriteByte\<close> and \<open>WriteRune\<close> on it does nothing and returns the error recorded first, and
  neither they nor \<open>Close\<close> replace that error. A state whose \<open>err\<close> is set is left as it
  is, with the writers under it, by all five methods, which return \<open>err\<close>; and a write that
  returns an error has recorded that error in \<open>err\<close>.
\<close>

theorem first_error_wins:
  "(err (fst c) = Some e \<longrightarrow>
      encodeState_Write c p = (c, 0, Some e)
      \<and> encodeState_WriteString c str = (c, 0, Some e)
      \<and> encodeState_WriteByte c b = (c, Some e)
      \<and> encodeState_WriteRune c r = (c, 0, Some e)
      \<and> encodeState_Close c = (c, Some e))
   \<and> (snd (snd (encodeState_Write c p)) = Some e \<longrightarrow> err (fst (fst (encodeState_Write c p))) = Some e)
   \<and> (snd (snd (encodeState_WriteString c str)) = Some e
        \<longrightarrow> err (fst (fst (encodeState_WriteString c str))) = Some e)
   \<and> (snd (encodeState_WriteByte c b) = Some e \<longrightarrow> err (fst (fst (encodeState_WriteByte c b))) = Some e)
   \<and> (snd (snd (encodeState_WriteRune c r)) = Some e
        \<longrightarrow> err (fst (fst (encodeState_WriteRune c r))) = Some e)"
proof -
  have 1: "err (fst c) = Some e \<Longrightarrow> encodeState_Write c p = (c, 0, Some e)"
    by (simp add: encodeState_Write_def Write_on_def)
  have 2: "err (fst c) = Some e \<Longrightarrow> encodeState_WriteString c str = (c, 0, Some e)"
    by (simp add: encodeState_WriteString_def)
  have 3: "err (fst c) = Some e \<Longrightarrow> encodeState_WriteByte c b = (c, Some e)"
    by (simp add: encodeState_WriteByte_def)
  have 4: "err (fst c) = Some e \<Longrightarrow> encodeState_WriteRune c r = (c, 0, Some e)"
    by (simp add: encodeState_WriteRune_def)
  have 5: "err (fst c) = Some e \<Longrightarrow> encodeState_Close c = (c, Some e)"
    by (simp add: encodeState_Close_def)
  have 6: "snd (snd (encodeState_Write c p)) = Some e \<Longrightarrow> err (fst (fst (encodeState_Write c p))) = Some e"
    using encodeState_Write_passes[of c p] by (cases "encodeState_Write c p") (auto simp: mpasses_def)
  have 7: "snd (snd (encodeState_WriteString c str)) = Some e
      \<Longrightarrow> err (fst (fst (encodeState_WriteString c str))) = Some e"
    using encodeState_WriteString_passes[of c str]
    by (cases "encodeState_WriteString c str") (auto simp: mpasses_def)
  have 8: "snd (encodeState_WriteByte c b) = Some e \<Longrightarrow> err (fst (fst (encodeState_WriteByte c b))) = Some e"
    using encodeState_WriteByte_passes[of c b]
    by (cases "encodeState_WriteByte c b") (auto simp: mpasses_def)
  have 9: "snd (snd (encodeState_WriteRune c r)) = Some e
      \<Longrightarrow> err (fst (fst (encodeState_WriteRune c r))) = Some e"
    using encodeState_WriteRune_passes[of c r]
    by (cases "encodeState_WriteRune c r") (auto simp: mpasses_def)
  show ?thesis using 1 2 3 4 5 6 7 8 9 by blast
qed

theorem first_error_wins_witness:
  "snd (snd (encodeState_Write
        (\<lparr>w = bufio_NewWriter, err = None, nextName = 0, names = None\<rparr>, Sink (full_after 0 (SinkError 3)))
        (replicate 4097 CHR ''x''))) = Some (SinkError 3)
   \<and> err (fst (fst (encodeState_Write
        (\<lparr>w = bufio_NewWriter, err = None, nextName = 0, names = None\<rparr>, Sink (full_after 0 (SinkError 3)))
        (replicate 4097 CHR ''x'')))) = Some (SinkError 3)
   \<and> err (fst (\<lparr>w = bufio_NewWriter, err = Some (SinkError 3), nextName = 0, names = None\<rparr>, Sink good_sink))
        = Some (SinkError 3)
   \<and> encodeState_WriteByte
        (\<lparr>w = bufio_NewWriter, err = Some (SinkError 3), nextName = 0, names = None\<rparr>, Sink good_sink) CHR ''x''
      = ((\<lparr>w = bufio_NewWriter, err = Some (SinkError 3), nextName = 0, names = None\<rparr>, Sink good_sink),
         Some (SinkError 3))
   \<and> encodeState_Close
        (\<lparr>w = bufio_NewWriter, err = Some (SinkError 3), nextName = 0, names = None\<rparr>, Sink good_sink)
      = ((\<lparr>w = bufio_NewWriter, err = Some (SinkError 3), nextName = 0, names = None\<rparr>, Sink good_sink),
         Some (SinkError 3))"
proof -
  have 1: "snd (snd (encodeState_Write
        (\<lparr>w = bufio_NewWriter, err = None, nextName = 0, names = None\<rparr>, Sink (full_after 0 (SinkError 3)))
        (replicate 4097 CHR ''x''))) = Some (SinkError 3)"
    by (simp add: eval_write)
  show ?thesis
    using 1 first_error_wins[of "(\<lparr>w = bufio_NewWriter, err = None, nextName = 0, names = None\<rparr>, Sink (full_after 0 (SinkError 3)))"
          "SinkError 3" "replicate 4097 CHR ''x''"]
      first_error_wins[of "(\<lparr>w = bufio_NewWriter, err = Some (SinkError 3), nextName = 0, names = None\<rparr>, Sink good_sink)"
          "SinkError 3" _ _ "CHR ''x''"]
    by simp
qed

text \<open>
  Claim C3, amended: a \<open>Stream\<close> of declared length \<open>n\<close> whose reader yields at least \<open>n\<close>
  bytes is encoded without error as the dictionary with the one entry \<open>Length\<close>, then the
  two markers around the first \<open>n\<close> bytes of the reader. If the reader yields fewer,
  \<open>EncodeObject\<close> returns \<open>io.EOF\<close>, the error of \<open>io.CopyN\<close>, and what has been written ends
  with the bytes the reader had: nothing is added, and the end marker is not written.
\<close>

theorem Stream_output:
  "(n \<le> int (length src) \<longrightarrow>
      output_of (Some (Stream n (Some src)))
        = ''<<'' @ newline @ ''/Length '' @ fmt_d n @ newline @ ''>>''
          @ newline @ ''stream'' @ newline @ take (nat n) src @ newline @ ''endstream'' @ newline
      \<and> outcome_of (Some (Stream n (Some src))) = Returns None)
   \<and> (int (length src) < n \<longrightarrow>
      outcome_of (Some (Stream n (Some src))) = Returns (Some EOF)
      \<and> output_of (Some (Stream n (Some src)))
        = ''<<'' @ newline @ ''/Length '' @ fmt_d n @ newline @ ''>>''
          @ newline @ ''stream'' @ newline @ src)
   \<and> output_of (Some (Dict [(''Length'', Some (Integer n))]))
        = ''<<'' @ newline @ ''/Length '' @ fmt_d n @ newline @ ''>>''"
proof -
  have "n \<le> int (length src) \<Longrightarrow> \<not> int (length (take (nat n) src)) < n" by auto
  moreover have "int (length src) < n \<Longrightarrow> int (length (take (nat n) src)) < n \<and> take (nat n) src = src"
    by auto
  moreover have "renderObject (Some (Stream n (Some src)))
      = (fst (render (Stream n (Some src)) newState), snd (snd (render (Stream n (Some src)) newState)))"
    by (simp add: renderObject.simps case_prod_beta)
  ultimately show ?thesis
    unfolding output_of_render outcome_of_render
    by (auto simp add: Length_dict simp del: length_take take_all_iff)
qed

theorem Stream_output_witness:
  "(3::int) \<le> int (length ''abcde'')
   \<and> output_of (Some (Stream 3 (Some ''abcde'')))
        = ''<<'' @ newline @ ''/Length 3'' @ newline @ ''>>'' @ newline @ ''stream'' @ newline @ ''abc''
          @ newline @ ''endstream'' @ newline
   \<and> int (length ''ab'') < (3::int)
   \<and> outcome_of (Some (Stream 3 (Some ''ab''))) = Returns (Some EOF)
   \<and> output_of (Some (Stream 3 (Some ''ab'')))
        = ''<<'' @ newline @ ''/Length 3'' @ newline @ ''>>'' @ newline @ ''stream'' @ newline @ ''ab''"
  using Stream_output[of 3 "''abcde''"] Stream_output[of 3 "''ab''"]
  by (simp add: fmt_d_def dec_nat.simps decdigit_def)

text \<open>
  Claim C3 as it is written names a distinct error for the short reader. The code has no
  error of its own: it returns what \<open>io.CopyN\<close> returns, \<open>io.EOF\<close>, and the same value comes
  back from encoding a \<open>LiteralString\<close> on an output whose write fails with \<open>io.EOF\<close>.
\<close>

theorem Stream_error_not_distinct:
  "outcome_of (Some (Stream 3 (Some ''ab''))) = Returns (Some EOF)
   \<and> snd (EncodeObject (Sink (full_after 0 EOF)) (Some (LiteralString ''a''))) = Returns (Some EOF)"
proof -
  have 1: "outcome_of (Some (Stream 3 (Some ''ab''))) = Returns (Some EOF)"
    by (simp add: outcome_of_render renderObject.simps(2) Length_dict case_prod_beta)
  have 2: "snd (EncodeObject (Sink (full_after 0 EOF)) (Some (LiteralString ''a''))) = Returns (Some EOF)"
    by code_simp
  show ?thesis using 1 2 by simp
qed

text \<open>
  Claim C4: in the text of a \<open>Name\<close>, a character outside \<open>!\<close> to \<open>~\<close> is written as \<open>#\<close> and
  exactly two hexadecimal digits. \<open>Name.encode\<close> prints the rune with \<open>%X\<close>, which pads
  nothing, where the branch for \<open>#\<close> itself writes the two digits \<open>23\<close>: a tab is written
  with one digit, and a rune above \<open>U+00FF\<close> with more than two.
\<close>

theorem Name_escape_one_digit:
  "output_of (Some (Name [CHR 0x09])) = ''/#9''
   \<and> output_of (Some (Name [CHR 0xE2, CHR 0x82, CHR 0xAC])) = ''/#20AC''"
  by (simp add: eval_render)

text \<open>
  Claim C5: \<open>objName\<close> gives a name that is not in the table the next number, \<open>nextName\<close>,
  which it then increases by one, and enters it; a name that is in the table keeps its
  number, and nothing else changes. It has no error to return, takes nothing but the
  state and the name, so that it cannot tell a definition from a reference, and in the
  state that \<open>EncodeObject\<close> starts from the first name gets 0.
\<close>

theorem objName_resolves:
  "(lookup s name = None \<longrightarrow>
      snd (objName s name) = nextName s
      \<and> nextName (fst (objName s name)) = nextName s + 1
      \<and> lookup (fst (objName s name)) = (lookup s)(name \<mapsto> nextName s))
   \<and> (\<forall>n. lookup s name = Some n \<longrightarrow>
      snd (objName s name) = n
      \<and> nextName (fst (objName s name)) = nextName s
      \<and> lookup (fst (objName s name)) = lookup s)
   \<and> w (fst (objName s name)) = w s \<and> err (fst (objName s name)) = err s
   \<and> snd (objName \<lparr>w = bufio_NewWriter, err = None, nextName = 0, names = None\<rparr> name) = 0"
  by (auto simp: objName_def lookup_def Let_def split: option.splits)

theorem objName_resolves_witness:
  "lookup \<lparr>w = bufio_NewWriter, err = None, nextName = 1, names = Some [''a'' \<mapsto> 0]\<rparr> ''b'' = None
   \<and> snd (objName \<lparr>w = bufio_NewWriter, err = None, nextName = 1, names = Some [''a'' \<mapsto> 0]\<rparr> ''b'') = 1
   \<and> lookup \<lparr>w = bufio_NewWriter, err = None, nextName = 1, names = Some [''a'' \<mapsto> 0]\<rparr> ''a'' = Some 0
   \<and> snd (objName \<lparr>w = bufio_NewWriter, err = None, nextName = 1, names = Some [''a'' \<mapsto> 0]\<rparr> ''a'') = 0"
  using objName_resolves[of "\<lparr>w = bufio_NewWriter, err = None, nextName = 1, names = Some [''a'' \<mapsto> 0]\<rparr>" "''b''"]
    objName_resolves[of "\<lparr>w = bufio_NewWriter, err = None, nextName = 1, names = Some [''a'' \<mapsto> 0]\<rparr>" "''a''"]
  by (simp add: lookup_def)

text \<open>
  Claim C6: for a \<open>Name\<close> of bytes from \<open>!\<close> to \<open>~\<close>, the text is \<open>/\<close> and then the bytes,
  each \<open>#\<close> replaced by \<open>#23\<close>; without a \<open>#\<close> it is \<open>/\<close> and the name as it is.
\<close>

theorem Name_printable_output:
  assumes "\<forall>c \<in> set x. (33::nat) \<le> of_char c \<and> of_char c \<le> (126::nat)"
  shows "output_of (Some (Name x)) = ''/'' @ concat (map (\<lambda>c. if c = CHR ''#'' then ''#23'' else [c]) x)
     \<and> outcome_of (Some (Name x)) = Returns None
     \<and> (CHR ''#'' \<notin> set x \<longrightarrow> output_of (Some (Name x)) = ''/'' @ x)"
proof -
  have a: "\<forall>c \<in> set x. of_char c < (128::nat)" using assms by auto
  have 1: "output_of (Some (Name x)) = ''/'' @ concat (map (\<lambda>c. if c = CHR ''#'' then ''#23'' else [c]) x)"
    by (simp add: output_of_render renderObject.simps runes_ascii[OF a] Name_text_printable[OF assms])
  have 2: "CHR ''#'' \<notin> set x \<Longrightarrow> concat (map (\<lambda>c. if c = CHR ''#'' then ''#23'' else [c]) x) = x"
    by (induction x) auto
  show ?thesis using 1 2 by (simp add: outcome_of_render renderObject.simps)
qed

theorem Name_printable_output_witness:
  "list_all (\<lambda>c. (33::nat) \<le> of_char c \<and> of_char c \<le> (126::nat)) ''A#b~''
   \<and> output_of (Some (Name ''A#b~'')) = ''/A#23b~''
   \<and> CHR ''#'' \<notin> set ''Type'' \<and> output_of (Some (Name ''Type'')) = ''/Type''"
  using Name_printable_output[of "''A#b~''"] Name_printable_output[of "''Type''"]
  by simp

text \<open>
  Claim C7: the text of a \<open>HexString\<close> is \<open><\<close>, two upper-case hexadecimal digits for each
  byte with nothing between them, and \<open>>\<close>; its length is twice the number of bytes plus 2.
\<close>

theorem HexString_output:
  "output_of (Some (HexString b)) = ''<'' @ concat (map hex_byte b) @ ''>''
   \<and> outcome_of (Some (HexString b)) = Returns None
   \<and> length (output_of (Some (HexString b))) = 2 * length b + 2
   \<and> (\<forall>c \<in> set b. length (hex_byte c) = 2)
   \<and> (\<forall>d \<in> set (concat (map hex_byte b)). d \<in> set ''0123456789ABCDEF'')"
proof -
  have "output_of (Some (HexString b)) = ''<'' @ fmt_X_bytes b @ ''>''"
    by (simp add: output_of_render renderObject.simps)
  moreover have "outcome_of (Some (HexString b)) = Returns None"
    by (simp add: outcome_of_render renderObject.simps)
  moreover have "\<forall>d \<in> set (concat (map hex_byte b)). d \<in> set ''0123456789ABCDEF''"
    using hex_byte_upper by fastforce
  ultimately show ?thesis using length_fmt_X_bytes[of b]
    by (simp add: fmt_X_bytes_def hex_byte_def)
qed

theorem HexString_output_witness:
  "output_of (Some (HexString [CHR 0x4A, CHR 0xFF, CHR 0x00])) = ''<4AFF00>''
   \<and> CHR 0xFF \<in> set [CHR 0x4A, CHR 0xFF, CHR 0x00] \<and> length (hex_byte CHR 0xFF) = 2
   \<and> CHR ''F'' \<in> set (concat (map hex_byte [CHR 0x4A, CHR 0xFF, CHR 0x00]))
   \<and> CHR ''F'' \<in> set ''0123456789ABCDEF''"
  using HexString_output[of "[CHR 0x4A, CHR 0xFF, CHR 0x00]"]
  by (simp add: hex_byte_def hexdigit_def)

text \<open>
  Claim C8: the empty \<open>Array\<close> is written as \<open>[]\<close> and the empty \<open>Dict\<close> as \<open><<\<close>, a newline
  and \<open>>>\<close>; an \<open>Array\<close> whose elements are all encoded without error is written as \<open>[\<close>, the
  texts of its elements with one space between neighbours, and \<open>]\<close>.
\<close>

theorem Array_Dict_output:
  "output_of (Some (Array [])) = ''[]''
   \<and> output_of (Some (Dict [])) = ''<<'' @ newline @ ''>>''
   \<and> ((\<forall>x \<in> set xs. outcome_of x = Returns None) \<longrightarrow>
        output_of (Some (Array xs)) = ''['' @ separated (map output_of xs) @ '']''
        \<and> outcome_of (Some (Array xs)) = Returns None)"
proof -
  have "\<forall>x \<in> set xs. outcome_of x = Returns None \<Longrightarrow>
      render_elems xs [] = (separated (map output_of xs), Returns None)"
    using render_elems_ok[of xs "[]"] by (cases xs) (simp_all add: outcome_of_render output_of_eq)
  then show ?thesis
    by (auto simp add: output_of_render outcome_of_render renderObject.simps(2) renderObject.simps(1))
qed

theorem Array_Dict_output_witness:
  "list_all (\<lambda>x. outcome_of x = Returns None) [Some (Integer 1), None, Some (Name ''a'')]
   \<and> output_of (Some (Array [Some (Integer 1), None, Some (Name ''a'')])) = ''[1 null /a]''"
proof -
  have 1: "\<forall>x \<in> set [Some (Integer 1), None, Some (Name ''a'')]. outcome_of x = Returns None"
    by (simp add: eval_render)
  have "output_of (Some (Name ''a'')) = ''/a''"
    by (simp add: output_of_render renderObject.simps Name_text_plain)
  moreover have "output_of (Some (Integer 1)) = ''1''" "output_of None = ''null''"
    by (simp_all add: eval_render)
  ultimately have 2: "map output_of [Some (Integer 1), None, Some (Name ''a'')] = [''1'', ''null'', ''/a'']"
    by simp
  show ?thesis using Array_Dict_output[of "[Some (Integer 1), None, Some (Name ''a'')]"] 1 2
    by simp
qed

text \<open>
  Claim C9: \<open>Encode\<close> writes the header line \<open>%PDF-1.7\<close>, then encodes the objects of the body
  in order with \<open>EncodeObject\<close>, then writes the end marker, and returns the error of the
  header write, of an object or of the marker write. On every writer: an error of the
  header write is returned as it is, and nothing more is written; after a header written
  without error, the first object for which \<open>EncodeObject\<close> does not return \<open>nil\<close> ends the
  call, which returns what \<open>EncodeObject\<close> returned and leaves the writer as it left it; and
  if every object is encoded without error, the marker is written after them and the
  result is the result of that write, its error or \<open>nil\<close>. On an output that never fails,
  the bytes written are the header, the texts of the objects in order and the marker, or
  the header and the texts up to the object that failed. And on any output that has not
  failed before, if a write on it fails, \<open>Encode\<close> does not return \<open>nil\<close>. The marker is the
  text given to \<open>io.WriteString\<close>, with both percent signs.
\<close>

theorem Encode_document:
  "(snd (snd (wWrite wr header)) = Some e \<longrightarrow> Encode wr p = (fst (wWrite wr header), Returns (Some e)))
   \<and> (snd (snd (wWrite wr header)) = None
       \<and> Body pdf = xs @ ob # ys \<and> all_encoded xs (fst (wWrite wr header))
       \<and> snd (EncodeObject (written_objects xs (fst (wWrite wr header))) (Some (Indirect (fst ob) (snd ob))))
            \<noteq> Returns None \<longrightarrow>
      Encode wr (Some pdf)
        = EncodeObject (written_objects xs (fst (wWrite wr header))) (Some (Indirect (fst ob) (snd ob))))
   \<and> (snd (snd (wWrite wr header)) = None \<and> all_encoded (Body pdf) (fst (wWrite wr header)) \<longrightarrow>
      Encode wr (Some pdf) =
        (fst (io_WriteString (written_objects (Body pdf) (fst (wWrite wr header))) ''%%EOF''),
         Returns (snd (snd (io_WriteString (written_objects (Body pdf) (fst (wWrite wr header))) ''%%EOF'')))))
   \<and> ((\<forall>ob \<in> set (Body pdf). outcome_of (Some (Indirect (fst ob) (snd ob))) = Returns None) \<longrightarrow>
      snd (Encode (Sink good_sink) (Some pdf)) = Returns None
      \<and> out (sink_of (fst (Encode (Sink good_sink) (Some pdf))))
           = ''%PDF-1.7'' @ newline
             @ concat (map (\<lambda>ob. output_of (Some (Indirect (fst ob) (snd ob)))) (Body pdf))
             @ ''%%EOF'')
   \<and> (Body pdf = xs @ ob # ys
       \<and> (\<forall>ob \<in> set xs. outcome_of (Some (Indirect (fst ob) (snd ob))) = Returns None)
       \<and> outcome_of (Some (Indirect (fst ob) (snd ob))) \<noteq> Returns None \<longrightarrow>
      snd (Encode (Sink good_sink) (Some pdf)) = outcome_of (Some (Indirect (fst ob) (snd ob)))
      \<and> out (sink_of (fst (Encode (Sink good_sink) (Some pdf))))
           = ''%PDF-1.7'' @ newline
             @ concat (map (\<lambda>ob. output_of (Some (Indirect (fst ob) (snd ob)))) xs)
             @ output_of (Some (Indirect (fst ob) (snd ob))))
   \<and> (\<not> failed k \<and> failed (sink_of (fst (Encode (Sink k) p))) \<longrightarrow>
      snd (Encode (Sink k) p) \<noteq> Returns None)"
proof (intro conjI impI)
  assume "snd (snd (wWrite wr header)) = Some e"
  then show "Encode wr p = (fst (wWrite wr header), Returns (Some e))" by (rule Encode_header_fails)
next
  assume "snd (snd (wWrite wr header)) = None
       \<and> Body pdf = xs @ ob # ys \<and> all_encoded xs (fst (wWrite wr header))
       \<and> snd (EncodeObject (written_objects xs (fst (wWrite wr header))) (Some (Indirect (fst ob) (snd ob))))
            \<noteq> Returns None"
  then show "Encode wr (Some pdf)
        = EncodeObject (written_objects xs (fst (wWrite wr header))) (Some (Indirect (fst ob) (snd ob)))"
    using Encode_object_fails by blast
next
  assume "snd (snd (wWrite wr header)) = None \<and> all_encoded (Body pdf) (fst (wWrite wr header))"
  then show "Encode wr (Some pdf) =
        (fst (io_WriteString (written_objects (Body pdf) (fst (wWrite wr header))) ''%%EOF''),
         Returns (snd (snd (io_WriteString (written_objects (Body pdf) (fst (wWrite wr header))) ''%%EOF''))))"
    using Encode_marker by blast
next
  assume "\<forall>ob \<in> set (Body pdf). outcome_of (Some (Indirect (fst ob) (snd ob))) = Returns None"
  from Encode_ok[OF this]
  show "snd (Encode (Sink good_sink) (Some pdf)) = Returns None"
    and "out (sink_of (fst (Encode (Sink good_sink) (Some pdf))))
           = ''%PDF-1.7'' @ newline
             @ concat (map (\<lambda>ob. output_of (Some (Indirect (fst ob) (snd ob)))) (Body pdf))
             @ ''%%EOF''" by blast+
next
  assume "Body pdf = xs @ ob # ys
       \<and> (\<forall>ob \<in> set xs. outcome_of (Some (Indirect (fst ob) (snd ob))) = Returns None)
       \<and> outcome_of (Some (Indirect (fst ob) (snd ob))) \<noteq> Returns None"
  from Encode_stops[OF this]
  show "snd (Encode (Sink good_sink) (Some pdf)) = outcome_of (Some (Indirect (fst ob) (snd ob)))"
    and "out (sink_of (fst (Encode (Sink good_sink) (Some pdf))))
           = ''%PDF-1.7'' @ newline
             @ concat (map (\<lambda>ob. output_of (Some (Indirect (fst ob) (snd ob)))) xs)
             @ output_of (Some (Indirect (fst ob) (snd ob)))" by blast+
next
  assume "\<not> failed k \<and> failed (sink_of (fst (Encode (Sink k) p)))"
  then show "snd (Encode (Sink k) p) \<noteq> Returns None" using Encode_reports by blast
qed

theorem Encode_document_witness:
  "snd (snd (wWrite (Sink (full_after 3 (SinkError 9))) header)) = Some (SinkError 9)
   \<and> snd (Encode (Sink (full_after 3 (SinkError 9))) None) = Returns (Some (SinkError 9))
   \<and> snd (snd (wWrite (Sink (full_after 9 (SinkError 9))) header)) = None
   \<and> snd (EncodeObject (fst (wWrite (Sink (full_after 9 (SinkError 9))) header))
            (Some (Indirect ''a'' (Some (Integer 7))))) = Returns (Some (SinkError 9))
   \<and> snd (Encode (Sink (full_after 9 (SinkError 9))) (Some \<lparr>Body = [(''a'', Some (Integer 7))]\<rparr>))
        = Returns (Some (SinkError 9))
   \<and> snd (snd (wWrite (Sink (full_after 26 (SinkError 9))) header)) = None
   \<and> all_encoded [(''a'', Some (Integer 7))] (fst (wWrite (Sink (full_after 26 (SinkError 9))) header))
   \<and> snd (snd (io_WriteString
          (written_objects [(''a'', Some (Integer 7))] (fst (wWrite (Sink (full_after 26 (SinkError 9))) header)))
          ''%%EOF'')) = Some (SinkError 9)
   \<and> snd (Encode (Sink (full_after 26 (SinkError 9))) (Some \<lparr>Body = [(''a'', Some (Integer 7))]\<rparr>))
        = Returns (Some (SinkError 9))
   \<and> list_all (\<lambda>ob. outcome_of (Some (Indirect (fst ob) (snd ob))) = Returns None)
        (Body \<lparr>Body = [(''a'', Some (Integer 7))]\<rparr>)
   \<and> out (sink_of (fst (Encode (Sink good_sink) (Some \<lparr>Body = [(''a'', Some (Integer 7))]\<rparr>))))
        = ''%PDF-1.7'' @ newline @ ''0 0 obj'' @ newline @ ''7'' @ newline @ ''endobj'' @ newline @ ''%%EOF''
   \<and> outcome_of (Some (Indirect ''s'' (Some (Stream 2 (Some ''x''))))) \<noteq> Returns None
   \<and> snd (Encode (Sink good_sink)
          (Some \<lparr>Body = [(''a'', Some (Integer 7)), (''s'', Some (Stream 2 (Some ''x''))), (''c'', None)]\<rparr>))
        = Returns (Some EOF)
   \<and> \<not> failed (full_after 3 (SinkError 9))
   \<and> failed (sink_of (fst (Encode (Sink (full_after 3 (SinkError 9))) None)))"
proof -
  let ?p1 = "\<lparr>Body = [(''a'', Some (Integer 7))]\<rparr>"
  let ?p2 = "\<lparr>Body = [(''a'', Some (Integer 7)), (''s'', Some (Stream 2 (Some ''x''))), (''c'', None)]\<rparr>"
  let ?k3 = "full_after 3 (SinkError 9)"
  let ?k9 = "full_after 9 (SinkError 9)"
  let ?k26 = "full_after 26 (SinkError 9)"
  have a: "outcome_of (Some (Indirect ''a'' (Some (Integer 7)))) = Returns None"
    "output_of (Some (Indirect ''a'' (Some (Integer 7)))) = ''0 0 obj'' @ newline @ ''7'' @ newline @ ''endobj'' @ newline"
    by (simp_all add: eval_render)
  have b: "outcome_of (Some (Indirect ''s'' (Some (Stream 2 (Some ''x''))))) = Returns (Some EOF)"
    by (simp add: outcome_of_render renderObject.simps(2) Length_dict case_prod_beta)
  have c: "snd (snd (wWrite (Sink ?k3) header)) = Some (SinkError 9)"
    by (simp add: wWrite_Sink sink_Write_def full_after_def header_def Version_def newline_def)
  have d: "failed (sink_of (fst (Encode (Sink ?k3) None)))"
    by (simp add: Encode_def wWrite_Sink sink_Write_def full_after_def header_def Version_def newline_def)
  have e: "\<not> failed ?k3" by (simp add: full_after_def)
  have f: "snd (snd (wWrite (Sink ?k9) header)) = None"
    by (simp add: wWrite_Sink sink_Write_def full_after_def header_def Version_def newline_def)
  have g: "snd (EncodeObject (fst (wWrite (Sink ?k9) header)) (Some (Indirect ''a'' (Some (Integer 7)))))
      = Returns (Some (SinkError 9))"
    by code_simp
  have h: "snd (snd (wWrite (Sink ?k26) header)) = None"
    by (simp add: wWrite_Sink sink_Write_def full_after_def header_def Version_def newline_def)
  have i: "all_encoded [(''a'', Some (Integer 7))] (fst (wWrite (Sink ?k26) header))"
    by code_simp
  have j: "snd (snd (io_WriteString
          (written_objects [(''a'', Some (Integer 7))] (fst (wWrite (Sink ?k26) header))) ''%%EOF''))
        = Some (SinkError 9)"
    by code_simp
  show ?thesis
    using Encode_document[where wr = "Sink ?k3" and e = "SinkError 9" and p = None and k = ?k3
          and pdf = ?p1 and xs = "[]" and ob = "(''a'', None)" and ys = "[]"]
      Encode_document[where wr = "Sink ?k9" and e = "SinkError 9" and p = None and k = ?k3
          and pdf = ?p1 and xs = "[]" and ob = "(''a'', Some (Integer 7))" and ys = "[]"]
      Encode_document[where wr = "Sink ?k26" and e = "SinkError 9" and p = None and k = ?k3
          and pdf = ?p2 and xs = "[(''a'', Some (Integer 7))]" and ob = "(''s'', Some (Stream 2 (Some ''x'')))"
          and ys = "[(''c'', None)]"]
      Encode_document[where wr = "Sink ?k26" and e = "SinkError 9" and p = None and k = ?k3
          and pdf = ?p1 and xs = "[]" and ob = "(''a'', None)" and ys = "[]"]
      a b c d e f g h i j
    by simp
qed

text \<open>
  Claim C10, amended: if a write on the output fails during \<open>EncodeObject\<close> of an object,
  \<open>EncodeObject\<close> does not return \<open>nil\<close>, and for every object that holds no \<open>nil\<close> where the
  code dereferences one it returns an error. Where the \<open>encode\<close> method returns \<open>nil\<close>, as
  that of a \<open>LiteralString\<close> always does, the error returned is the one recorded in \<open>err\<close>
  of the state, after \<open>encode\<close> or by \<open>Close\<close>. Where \<open>encode\<close> returns an error of its own,
  \<open>EncodeObject\<close> returns that error.
\<close>

theorem EncodeObject_surfaces_failure:
  assumes "\<not> failed k" "failed (sink_of (fst (EncodeObject (Sink k) (Some obj))))"
  shows "snd (EncodeObject (Sink k) (Some obj)) \<noteq> Returns None
     \<and> (nil_free obj \<longrightarrow> (\<exists>e. snd (EncodeObject (Sink k) (Some obj)) = Returns (Some e)))
     \<and> (snd (encode obj (newState, Sink k)) = Returns None \<longrightarrow>
          err (fst (fst (encodeState_Close (fst (encode obj (newState, Sink k)))))) \<noteq> None
          \<and> snd (EncodeObject (Sink k) (Some obj))
              = Returns (err (fst (fst (encodeState_Close (fst (encode obj (newState, Sink k))))))))
     \<and> (\<forall>e. snd (encode obj (newState, Sink k)) = Returns (Some e) \<longrightarrow>
          snd (EncodeObject (Sink k) (Some obj)) = Returns (Some e))
     \<and> snd (LiteralString_encode str c) = None
     \<and> snd (encode (Array []) c) = Returns None
     \<and> snd (encode (Dict []) c) = Returns None"
proof -
  obtain wr1 r where e: "EncodeObject (Sink k) (Some obj) = (wr1, r)"
    by (cases "EncodeObject (Sink k) (Some obj)") auto
  obtain c1 r1 where en: "encode obj (newState, Sink k) = (c1, r1)"
    by (cases "encode obj (newState, Sink k)") auto
  obtain c2 cerr where cl: "encodeState_Close c1 = (c2, cerr)"
    by (cases "encodeState_Close c1") auto
  from EncodeObject_reports[OF assms(1) e] assms(2) e
  have 1: "r \<noteq> Returns None" by auto
  have "nil_free obj \<Longrightarrow> r \<noteq> Panics" using encode_no_panic(2)[of "Some obj" "Sink k"] e by simp
  then have 2: "nil_free obj \<Longrightarrow> \<exists>e. r = Returns (Some e)"
    using 1 by (cases r) auto
  have 3: "snd (LiteralString_encode str c) = None"
    by (simp add: LiteralString_encode_def case_prod_beta)
  have res: "r = (case r1 of Panics \<Rightarrow> Panics | Returns (Some e) \<Rightarrow> Returns (Some e)
          | Returns None \<Rightarrow> if err (fst c1) \<noteq> None then Returns (err (fst c1)) else Returns cerr)"
    using e en cl by (simp add: EncodeObject.simps newState_def)
  have cl2: "err (fst c1) \<noteq> None \<Longrightarrow> c2 = c1" "err (fst c1) = None \<Longrightarrow> err (fst c2) = cerr"
    using cl by (auto simp: encodeState_Close_def case_prod_beta Let_def split: if_splits)
  have 4: "r1 = Returns None \<Longrightarrow> r = Returns (err (fst c2))"
    using res cl2 by (cases "err (fst c1) = None") auto
  then have 5: "r1 = Returns None \<Longrightarrow> err (fst c2) \<noteq> None" using 1 by auto
  have 6: "\<And>e. r1 = Returns (Some e) \<Longrightarrow> r = Returns (Some e)" using res by simp
  have 7: "snd (encode (Array []) c) = Returns None" "snd (encode (Dict []) c) = Returns None"
    by (simp_all add: case_prod_beta)
  show ?thesis using 1 2 3 4 5 6 7 e en cl by simp
qed

theorem EncodeObject_surfaces_failure_witness:
  "\<not> failed (full_after 0 (SinkError 5))
   \<and> failed (sink_of (fst (EncodeObject (Sink (full_after 0 (SinkError 5))) (Some (LiteralString ''a'')))))
   \<and> nil_free (LiteralString ''a'')
   \<and> snd (encode (LiteralString ''a'') (newState, Sink (full_after 0 (SinkError 5)))) = Returns None
   \<and> err (fst (fst (encodeState_Close (fst (encode (LiteralString ''a'') (newState, Sink (full_after 0 (SinkError 5))))))))
        = Some (SinkError 5)
   \<and> snd (EncodeObject (Sink (full_after 0 (SinkError 5))) (Some (LiteralString ''a''))) = Returns (Some (SinkError 5))
   \<and> failed (sink_of (fst (EncodeObject (Sink (full_after 0 (SinkError 5))) (Some (Stream 2 (Some ''x''))))))
   \<and> snd (encode (Stream 2 (Some ''x'')) (newState, Sink (full_after 0 (SinkError 5)))) = Returns (Some EOF)
   \<and> snd (EncodeObject (Sink (full_after 0 (SinkError 5))) (Some (Stream 2 (Some ''x'')))) = Returns (Some EOF)
   \<and> failed (sink_of (fst (EncodeObject (Sink (full_after 0 (SinkError 5))) (Some (Array [])))))
   \<and> snd (encode (Array []) (newState, Sink (full_after 0 (SinkError 5)))) = Returns None
   \<and> snd (EncodeObject (Sink (full_after 0 (SinkError 5))) (Some (Array []))) = Returns (Some (SinkError 5))"
proof -
  let ?k = "full_after 0 (SinkError 5)"
  have 1: "\<not> failed ?k" by (simp add: full_after_def)
  have 2: "failed (sink_of (fst (EncodeObject (Sink ?k) (Some (LiteralString ''a'')))))"
    by code_simp
  have 3: "snd (encode (LiteralString ''a'') (newState, Sink ?k)) = Returns None"
    by code_simp
  have 4: "err (fst (fst (encodeState_Close (fst (encode (LiteralString ''a'') (newState, Sink ?k))))))
        = Some (SinkError 5)"
    by code_simp
  have 5: "failed (sink_of (fst (EncodeObject (Sink ?k) (Some (Stream 2 (Some ''x''))))))"
    by code_simp
  have 6: "snd (encode (Stream 2 (Some ''x'')) (newState, Sink ?k)) = Returns (Some EOF)"
    by code_simp
  have 7: "failed (sink_of (fst (EncodeObject (Sink ?k) (Some (Array [])))))"
    by code_simp
  have 8: "err (fst (fst (encodeState_Close (fst (encode (Array []) (newState, Sink ?k))))))
        = Some (SinkError 5)"
    by code_simp
  show ?thesis
    using EncodeObject_surfaces_failure[OF 1 2] EncodeObject_surfaces_failure[OF 1 5]
      EncodeObject_surfaces_failure[OF 1 7, where c = "(newState, Sink ?k)"] 1 2 3 4 5 6 7 8
    by simp
qed

text \<open>
  Claim C10 as it is written has the failure of the write surfaced through the error the
  state records, which \<open>EncodeObject\<close> returns. \<open>EncodeObject\<close> returns the error of \<open>encode\<close>
  first and takes the one of \<open>Close\<close> only where there is none. A \<open>Stream\<close> of length 5 over
  a reader of two bytes makes \<open>encode\<close> return \<open>io.EOF\<close> with everything still buffered; the
  flush in \<open>Close\<close> then fails, the state records the error of the output, and the caller
  gets \<open>io.EOF\<close>.
\<close>

theorem EncodeObject_returns_EOF_after_failed_write:
  "\<not> failed (full_after 0 (SinkError 5))
   \<and> failed (sink_of (fst (EncodeObject (Sink (full_after 0 (SinkError 5))) (Some (Stream 5 (Some ''ab''))))))
   \<and> err (fst (fst (encodeState_Close
          (fst (encode (Stream 5 (Some ''ab'')) (newState, Sink (full_after 0 (SinkError 5))))))))
        = Some (SinkError 5)
   \<and> snd (EncodeObject (Sink (full_after 0 (SinkError 5))) (Some (Stream 5 (Some ''ab'')))) = Returns (Some EOF)"
proof -
  let ?k = "full_after 0 (SinkError 5)"
  have 1: "\<not> failed ?k" by (simp add: full_after_def)
  have 2: "failed (sink_of (fst (EncodeObject (Sink ?k) (Some (Stream 5 (Some ''ab''))))))"
    by code_simp
  have 3: "err (fst (fst (encodeState_Close (fst (encode (Stream 5 (Some ''ab'')) (newState, Sink ?k))))))
        = Some (SinkError 5)"
    by code_simp
  have 4: "snd (EncodeObject (Sink ?k) (Some (Stream 5 (Some ''ab'')))) = Returns (Some EOF)"
    by code_simp
  show ?thesis using 1 2 3 4 by simp
qed

end
